theory Spec2Isabelle
  imports Main "HOL-Library.Word" "HOL-Library.Sublist"
begin

unbundle bit_operations_syntax

section \<open>Values, errors, cancellation signals\<close>

text \<open>
  Pipeline values are dynamically typed in the source (\<open>any\<close>); a parallel group
  produces an array of member results, so values are atoms or arrays of values.
\<close>

datatype 'a jsval = Val 'a | Arr "'a jsval list"

text \<open>A JavaScript \<open>Error\<close>: only its message is read by the engine.\<close>

datatype error = Error (message: string)

text \<open>Virtual time in milliseconds, used to order the events of one invocation.\<close>

type_synonym time = nat

text \<open>
  An \<open>AbortSignal\<close>: the instant at which it is aborted, if ever. Once aborted it
  stays aborted. An absent signal (\<open>undefined\<close>) is \<open>None\<close>.
\<close>

datatype abort_signal = AbortSignal (abort_at: "time option")

definition aborted :: "abort_signal option \<Rightarrow> time \<Rightarrow> bool" where
  "aborted sg t =
     (case sg of
        None \<Rightarrow> False
      | Some s \<Rightarrow> (case abort_at s of None \<Rightarrow> False | Some a \<Rightarrow> a \<le> t))"

text \<open>\<open>ExecutionContext\<close> of types.ts, as the contents of the context object.\<close>

record ExecutionContext =
  signal :: "abort_signal option"
  stepIndex :: nat
  stepName :: "string option"
  retryCount :: nat

text \<open>
  What the promise returned by a step function does, measured from the call: it
  resolves with a value after some milliseconds, rejects with an error after some
  milliseconds, or never settles. A function that throws before returning its promise
  is \<open>Rejects 0\<close>: the call stands inside the same \<open>try\<close> block as the \<open>await\<close>.
  A step function is taken to be determined by its input and by the contents of the
  context object at the call (\<open>AsyncFn\<close> of types.ts); what a later read of the context
  object would find is given by \<open>retryCount_at\<close> below.
\<close>

datatype 'a behaviour = Resolves time "'a jsval" | Rejects time error | Hangs

type_synonym 'a AsyncFn = "'a jsval \<Rightarrow> ExecutionContext \<Rightarrow> 'a behaviour"

text \<open>A promise of the engine, with the instant at which it settles.\<close>

datatype 'a settled = Fulfilled time "'a jsval" | Rejected time error | Pending

section \<open>Steps and flows\<close>

text \<open>
  The interface \<open>Step\<close> of core.ts. Retry counts, delays and timeouts are natural
  numbers of attempts and of milliseconds; an optional field that is absent is \<open>None\<close>.
\<close>

datatype step_type = single | parallel

record 'a Step =
  type :: step_type
  fn :: "'a AsyncFn option"
  fns :: "'a AsyncFn list option"
  retries :: "nat option"
  retryDelay :: "nat option"
  timeout :: "nat option"
  name :: "string option"

text \<open>
  Step objects live in a heap and a flow holds their addresses: the builder copies the
  array of references (\<open>[...this.steps]\<close>), not the Step objects.
\<close>

type_synonym 'a heap = "'a Step list"

record Quantam =
  steps :: "nat list"
  timeoutMs :: "nat option"
  abortSignal :: "abort_signal option"

definition quantam :: Quantam where
  "quantam = \<lparr>steps = [], timeoutMs = None, abortSignal = None\<rparr>"

section \<open>JavaScript operators used by the engine\<close>

text \<open>\<open>x || d\<close> on an optional number: \<open>undefined\<close> and \<open>0\<close> are falsy.\<close>

definition or_default :: "nat option \<Rightarrow> nat \<Rightarrow> nat" where
  "or_default x d = (case x of None \<Rightarrow> d | Some v \<Rightarrow> if v = 0 then d else v)"

text \<open>\<open>x ?? y\<close>: only \<open>undefined\<close> falls through to \<open>y\<close>.\<close>

definition nullish :: "'a option \<Rightarrow> 'a option \<Rightarrow> 'a option" where
  "nullish x y = (case x of None \<Rightarrow> y | Some v \<Rightarrow> Some v)"

text \<open>
  \<open>a << b\<close>: the left operand as a 32-bit integer, the shift count modulo 32, the
  result read back as a signed 32-bit integer.
\<close>

definition js_shl :: "int \<Rightarrow> nat \<Rightarrow> int" where
  "js_shl a b = sint (push_bit (b mod 32) (word_of_int a :: 32 word))"

text \<open>\<open>String.prototype.includes\<close>: the needle occurs as a contiguous substring.\<close>

fun js_includes :: "string \<Rightarrow> string \<Rightarrow> bool" where
  "js_includes [] needle = (needle = [])"
| "js_includes (c # cs) needle = (prefix needle (c # cs) \<or> js_includes cs needle)"

text \<open>Decimal digits of a number, as a template literal prints it.\<close>

fun digits :: "nat \<Rightarrow> string" where
  "digits n =
     (if n < 10 then [''0123456789'' ! n]
      else digits (n div 10) @ [''0123456789'' ! (n mod 10)])"

section \<open>Step Executor\<close>

text \<open>
  What the engine did, in order: \<open>Invoked t c k\<close> is the write
  \<open>context.retryCount = k\<close> to the context object at address \<open>c\<close> followed by the
  call \<open>fn(input, context)\<close>, at instant \<open>t\<close>; \<open>Slept t d\<close> is a backoff
  \<open>sleep(d, signal)\<close> started at \<open>t\<close> that ran to its end; \<open>SleepAborted t d\<close>
  is one that was rejected by the signal.
\<close>

datatype event = Invoked time nat nat | Slept time int | SleepAborted time int

fun invocations :: "event list \<Rightarrow> nat list" where
  "invocations [] = []"
| "invocations (Invoked t c k # es) = k # invocations es"
| "invocations (e # es) = invocations es"

fun sleeps :: "event list \<Rightarrow> int list" where
  "sleeps [] = []"
| "sleeps (Slept t d # es) = d # sleeps es"
| "sleeps (e # es) = sleeps es"

text \<open>\<open>checkAborted\<close>: the error it throws, if it throws.\<close>

definition checkAborted :: "abort_signal option \<Rightarrow> time \<Rightarrow> error option" where
  "checkAborted sg t = (if aborted sg t then Some (Error ''Pipeline aborted'') else None)"

text \<open>\<open>createTimeout(ms)\<close>: a promise that rejects after \<open>ms\<close> milliseconds.\<close>

definition createTimeout :: "nat \<Rightarrow> 'a behaviour" where
  "createTimeout ms = Rejects ms (Error (''Timeout after '' @ digits ms @ ''ms''))"

fun settle_time :: "'a behaviour \<Rightarrow> time option" where
  "settle_time (Resolves d v) = Some d"
| "settle_time (Rejects d e) = Some d"
| "settle_time Hangs = None"

text \<open>
  \<open>Promise.race([p, q])\<close>: whichever settles first; \<open>p\<close> was created first and
  wins a tie.
\<close>

definition promise_race :: "'a behaviour \<Rightarrow> 'a behaviour \<Rightarrow> 'a behaviour" where
  "promise_race p q =
     (case settle_time p of
        None \<Rightarrow> q
      | Some dp \<Rightarrow> (case settle_time q of None \<Rightarrow> p | Some dq \<Rightarrow> if dp \<le> dq then p else q))"

text \<open>
  \<open>sleep(ms, signal)\<close> started at \<open>t\<close>: it wakes at \<open>t + ms\<close> (the timer is taken
  to run for the delay it is given; a negative delay waits no time), or is rejected at
  once when the signal is already aborted, or at the instant the signal is aborted when
  that comes before the timer.
\<close>

datatype sleep_result = Woke time | SleepRejected time

definition sleep :: "int \<Rightarrow> abort_signal option \<Rightarrow> time \<Rightarrow> sleep_result" where
  "sleep ms sg t =
     (case sg of
        None \<Rightarrow> Woke (t + nat ms)
      | Some s \<Rightarrow>
          if aborted (Some s) t then SleepRejected t
          else (case abort_at s of
                  None \<Rightarrow> Woke (t + nat ms)
                | Some a \<Rightarrow> if a < t + nat ms then SleepRejected a else Woke (t + nat ms)))"

text \<open>
  Line 203: \<open>retryDelay * (1 << attempt)\<close>. The product of the two integers is taken
  exactly, as JavaScript's is below \<open>2^53\<close>.
\<close>

definition backoff_delay :: "nat \<Rightarrow> nat \<Rightarrow> int" where
  "backoff_delay retryDelay' attempt = int retryDelay' * js_shl 1 attempt"

text \<open>
  Lines 189-196: the awaited promise of one attempt, with
  \<open>effectiveTimeout = stepTimeout ?? this.timeoutMs\<close> and a race only when that is
  truthy.
\<close>

definition awaited :: "Quantam \<Rightarrow> nat option \<Rightarrow> 'a behaviour \<Rightarrow> 'a behaviour" where
  "awaited this stepTimeout promise =
     (case nullish stepTimeout (timeoutMs this) of
        None \<Rightarrow> promise
      | Some effectiveTimeout \<Rightarrow>
          if effectiveTimeout \<noteq> 0 then promise_race promise (createTimeout effectiveTimeout)
          else promise)"

text \<open>
  One pass through the body of the retry loop: either the executor's promise is decided
  (\<open>Decided\<close>: a return, a pending await, or an error escaping the \<open>catch\<close> block), or
  the loop goes on with \<open>lastError\<close> set (\<open>Continue\<close>).
\<close>

datatype 'a pass = Decided "'a settled" "event list" | Continue error time "event list"

text \<open>The \<open>catch\<close> block, lines 199-206.\<close>

definition on_catch ::
  "ExecutionContext \<Rightarrow> nat \<Rightarrow> nat \<Rightarrow> nat \<Rightarrow> error \<Rightarrow> time \<Rightarrow> event list \<Rightarrow> 'a pass" where
  "on_catch ctx retries' retryDelay' attempt err t evs =
     (if attempt < retries' then
        (let delay = backoff_delay retryDelay' attempt in
         case sleep delay (signal ctx) t of
           Woke t' \<Rightarrow> Continue err t' (evs @ [Slept t delay])
         | SleepRejected t' \<Rightarrow>
             Decided (Rejected t' (Error ''Sleep aborted'')) (evs @ [SleepAborted t delay]))
      else Continue err t evs)"

text \<open>The \<open>try\<close> block, lines 185-198, followed by the \<open>catch\<close> block when it throws.\<close>

definition attempt_pass ::
  "Quantam \<Rightarrow> 'a AsyncFn \<Rightarrow> 'a jsval \<Rightarrow> nat \<Rightarrow> ExecutionContext \<Rightarrow> nat \<Rightarrow> nat \<Rightarrow> nat option
     \<Rightarrow> nat \<Rightarrow> time \<Rightarrow> 'a pass" where
  "attempt_pass this f input c ctx retries' retryDelay' stepTimeout attempt t =
     (case checkAborted (signal ctx) t of
        Some err \<Rightarrow> on_catch ctx retries' retryDelay' attempt err t []
      | None \<Rightarrow>
          (let ctx' = ctx\<lparr>retryCount := attempt\<rparr>;
               promise = f input ctx'
           in case awaited this stepTimeout promise of
                Resolves d v \<Rightarrow> Decided (Fulfilled (t + d) v) [Invoked t c (retryCount ctx')]
              | Hangs \<Rightarrow> Decided Pending [Invoked t c (retryCount ctx')]
              | Rejects d err \<Rightarrow>
                  on_catch ctx retries' retryDelay' attempt err (t + d)
                    [Invoked t c (retryCount ctx')]))"

text \<open>Lines 209-218: what is thrown once the loop has ended.\<close>

definition stepLabel :: "ExecutionContext \<Rightarrow> string" where
  "stepLabel ctx =
     (case stepName ctx of
        None \<Rightarrow> ''''
      | Some n \<Rightarrow> if n = '''' then '''' else '' '' @ [CHR 0x27] @ n @ [CHR 0x27])"

definition after_loop :: "ExecutionContext \<Rightarrow> error option \<Rightarrow> error" where
  "after_loop ctx lastError =
     (case lastError of
        Some err \<Rightarrow>
          if stepLabel ctx \<noteq> '''' \<and> \<not> js_includes (message err) (stepLabel ctx)
          then Error (message err @ '' (at step'' @ stepLabel ctx @ '')'')
          else err
      | None \<Rightarrow> Error (''Step'' @ stepLabel ctx @ '' execution failed''))"

text \<open>The loop \<open>for (attempt = 0; attempt <= retries; attempt++)\<close> from any attempt on.\<close>

function executeSingleStep_from ::
  "Quantam \<Rightarrow> 'a AsyncFn \<Rightarrow> 'a jsval \<Rightarrow> nat \<Rightarrow> ExecutionContext \<Rightarrow> nat \<Rightarrow> nat \<Rightarrow> nat option
     \<Rightarrow> nat \<Rightarrow> error option \<Rightarrow> time \<Rightarrow> 'a settled \<times> event list" where
  "executeSingleStep_from this f input c ctx retries' retryDelay' stepTimeout attempt lastError t =
     (if attempt \<le> retries' then
        (case attempt_pass this f input c ctx retries' retryDelay' stepTimeout attempt t of
           Decided r evs \<Rightarrow> (r, evs)
         | Continue err t' evs \<Rightarrow>
             apsnd (\<lambda>evs'. evs @ evs')
               (executeSingleStep_from this f input c ctx retries' retryDelay' stepTimeout
                  (attempt + 1) (Some err) t'))
      else (Rejected t (after_loop ctx lastError), []))"
  by pat_completeness auto
termination
  by (relation "measure (\<lambda>(this, f, input, c, ctx, retries', retryDelay', stepTimeout, attempt,
        lastError, t). retries' + 1 - attempt)") auto

declare executeSingleStep_from.simps [simp del]

definition executeSingleStep ::
  "Quantam \<Rightarrow> 'a AsyncFn \<Rightarrow> 'a jsval \<Rightarrow> nat \<Rightarrow> ExecutionContext \<Rightarrow> nat \<Rightarrow> nat \<Rightarrow> nat option
     \<Rightarrow> time \<Rightarrow> 'a settled \<times> event list" where
  "executeSingleStep this f input c ctx retries' retryDelay' stepTimeout t =
     executeSingleStep_from this f input c ctx retries' retryDelay' stepTimeout 0 None t"

section \<open>Parallel groups\<close>

text \<open>
  \<open>Promise.all(promises)\<close>: rejected at the earliest rejection (the earlier member on
  a tie), fulfilled with the values in member order once every member is fulfilled,
  pending otherwise. \<open>t\<close> is the instant of the call, which is when the empty array is
  fulfilled.
\<close>

fun first_rejection :: "'a settled list \<Rightarrow> (time \<times> error) option" where
  "first_rejection [] = None"
| "first_rejection (Rejected t e # ps) =
     (case first_rejection ps of
        None \<Rightarrow> Some (t, e)
      | Some (t', e') \<Rightarrow> if t' < t then Some (t', e') else Some (t, e))"
| "first_rejection (p # ps) = first_rejection ps"

fun all_fulfilled :: "time \<Rightarrow> 'a settled list \<Rightarrow> (time \<times> 'a jsval list) option" where
  "all_fulfilled t [] = Some (t, [])"
| "all_fulfilled t (Fulfilled tp v # ps) =
     (case all_fulfilled t ps of None \<Rightarrow> None | Some (tm, vs) \<Rightarrow> Some (max tp tm, v # vs))"
| "all_fulfilled t (p # ps) = None"

definition promise_all :: "time \<Rightarrow> 'a settled list \<Rightarrow> 'a settled" where
  "promise_all t ps =
     (case first_rejection ps of
        Some (tr, e) \<Rightarrow> Rejected tr e
      | None \<Rightarrow> (case all_fulfilled t ps of Some (tm, vs) \<Rightarrow> Fulfilled tm (Arr vs) | None \<Rightarrow> Pending))"

text \<open>
  Lines 221-234. Every member is started at the same instant and is handed the same
  context object \<open>c\<close>; the events of the members are listed member by member, each with
  its instant.
\<close>

definition executeParallelSteps ::
  "Quantam \<Rightarrow> 'a AsyncFn list \<Rightarrow> 'a jsval \<Rightarrow> nat \<Rightarrow> ExecutionContext \<Rightarrow> nat \<Rightarrow> nat \<Rightarrow> nat option
     \<Rightarrow> time \<Rightarrow> 'a settled \<times> event list" where
  "executeParallelSteps this fs input c ctx retries' retryDelay' stepTimeout t =
     (let promises =
        map (\<lambda>f. executeSingleStep this f input c ctx retries' retryDelay' stepTimeout t) fs
      in (promise_all t (map fst promises), concat (map snd promises)))"

section \<open>Pipeline Runner\<close>

text \<open>
  The steps of a flow as they stand in a heap: \<open>this.steps[i]\<close> for each \<open>i\<close>.
\<close>

definition steps_of :: "'a heap \<Rightarrow> Quantam \<Rightarrow> 'a Step list" where
  "steps_of h this = map (\<lambda>a. h ! a) (steps this)"

text \<open>Lines 145-168: one step of the loop of \<open>run\<close>, after the cancellation poll.\<close>

definition run_step ::
  "Quantam \<Rightarrow> 'a Step \<Rightarrow> nat \<Rightarrow> ExecutionContext \<Rightarrow> 'a jsval \<Rightarrow> time \<Rightarrow> 'a settled \<times> event list" where
  "run_step this s c ctx result t =
     (case (type s, fn s, fns s) of
        (single, Some f, _) \<Rightarrow>
          executeSingleStep this f result c ctx
            (or_default (retries s) 0) (or_default (retryDelay s) 100) (timeout s) t
      | (parallel, _, Some fs) \<Rightarrow>
          executeParallelSteps this fs result c ctx
            (or_default (retries s) 0) (or_default (retryDelay s) 100) (timeout s) t
      | _ \<Rightarrow> (Fulfilled t result, []))"

text \<open>
  Lines 142-171: the loop over the steps, from step \<open>i\<close> on, with the current
  \<open>result\<close>. The context object at address \<open>c\<close> is updated in place before each step.
\<close>

fun run_from ::
  "Quantam \<Rightarrow> 'a Step list \<Rightarrow> nat \<Rightarrow> abort_signal option \<Rightarrow> nat \<Rightarrow> 'a jsval \<Rightarrow> time
     \<Rightarrow> 'a settled \<times> event list" where
  "run_from this [] i sg c result t = (Fulfilled t result, [])"
| "run_from this (s # ss) i sg c result t =
     (case checkAborted sg t of
        Some err \<Rightarrow> (Rejected t err, [])
      | None \<Rightarrow>
          (case run_step this s c
                  \<lparr>signal = sg, stepIndex = i, stepName = name s, retryCount = 0\<rparr> result t of
             (Fulfilled t' v, evs) \<Rightarrow> apsnd (\<lambda>evs'. evs @ evs') (run_from this ss (i + 1) sg c v t')
           | (r, evs) \<Rightarrow> (r, evs)))"

text \<open>
  Lines 133-172. \<open>options\<close> is \<open>options?.signal\<close>; \<open>c\<close> is the address of the context
  object this invocation creates; \<open>t\<close> is the instant of the call.
\<close>

definition run ::
  "Quantam \<Rightarrow> 'a heap \<Rightarrow> abort_signal option \<Rightarrow> 'a jsval \<Rightarrow> nat \<Rightarrow> time
     \<Rightarrow> 'a settled \<times> event list" where
  "run this h options input c t =
     (let sg = (case options of Some s \<Rightarrow> Some s | None \<Rightarrow> abortSignal this)
      in run_from this (steps_of h this) 0 sg c input t)"

section \<open>Flow Definition (builder)\<close>

text \<open>
  Each operation returns the new flow and the heap after the call. The flow object and
  its array are new (\<open>new Quantam\<close>, \<open>[...this.steps]\<close>); the array holds the same
  Step references as the original's.
\<close>

definition Quantam_step :: "'a AsyncFn \<Rightarrow> Quantam \<Rightarrow> 'a heap \<Rightarrow> Quantam \<times> 'a heap" where
  "Quantam_step f this h =
     (\<lparr>steps = steps this @ [length h], timeoutMs = timeoutMs this, abortSignal = abortSignal this\<rparr>,
      h @ [\<lparr>type = single, fn = Some f, fns = None, retries = None, retryDelay = None,
             timeout = None, name = None\<rparr>])"

definition Quantam_parallel :: "'a AsyncFn list \<Rightarrow> Quantam \<Rightarrow> 'a heap \<Rightarrow> Quantam \<times> 'a heap" where
  "Quantam_parallel fs this h =
     (\<lparr>steps = steps this @ [length h], timeoutMs = timeoutMs this, abortSignal = abortSignal this\<rparr>,
      h @ [\<lparr>type = parallel, fn = None, fns = Some fs, retries = None, retryDelay = None,
             timeout = None, name = None\<rparr>])"

definition Quantam_name :: "string \<Rightarrow> Quantam \<Rightarrow> 'a heap \<Rightarrow> Quantam \<times> 'a heap" where
  "Quantam_name label this h =
     (let newFlow = \<lparr>steps = steps this, timeoutMs = timeoutMs this, abortSignal = abortSignal this\<rparr>
      in if length (steps newFlow) > 0 then
           (let lastStep = steps newFlow ! (length (steps newFlow) - 1)
            in (newFlow, h[lastStep := (h ! lastStep)\<lparr>name := Some label\<rparr>]))
         else (newFlow, h))"

definition Quantam_retry :: "nat \<Rightarrow> nat option \<Rightarrow> Quantam \<Rightarrow> 'a heap \<Rightarrow> Quantam \<times> 'a heap" where
  "Quantam_retry count delayMs_arg this h =
     (let delayMs = (case delayMs_arg of None \<Rightarrow> 100 | Some d \<Rightarrow> d);
          newFlow = \<lparr>steps = steps this, timeoutMs = timeoutMs this, abortSignal = abortSignal this\<rparr>
      in if length (steps newFlow) > 0 then
           (let lastStep = steps newFlow ! (length (steps newFlow) - 1)
            in (newFlow, h[lastStep := (h ! lastStep)\<lparr>retries := Some count, retryDelay := Some delayMs\<rparr>]))
         else (newFlow, h))"

definition Quantam_stepTimeout :: "nat \<Rightarrow> Quantam \<Rightarrow> 'a heap \<Rightarrow> Quantam \<times> 'a heap" where
  "Quantam_stepTimeout ms this h =
     (let newFlow = \<lparr>steps = steps this, timeoutMs = timeoutMs this, abortSignal = abortSignal this\<rparr>
      in if length (steps newFlow) > 0 then
           (let lastStep = steps newFlow ! (length (steps newFlow) - 1)
            in (newFlow, h[lastStep := (h ! lastStep)\<lparr>timeout := Some ms\<rparr>]))
         else (newFlow, h))"

definition Quantam_withSignal :: "abort_signal \<Rightarrow> Quantam \<Rightarrow> 'a heap \<Rightarrow> Quantam \<times> 'a heap" where
  "Quantam_withSignal sg this h =
     (\<lparr>steps = steps this, timeoutMs = timeoutMs this, abortSignal = Some sg\<rparr>, h)"

definition Quantam_timeout :: "nat \<Rightarrow> Quantam \<Rightarrow> 'a heap \<Rightarrow> Quantam \<times> 'a heap" where
  "Quantam_timeout ms this h =
     (\<lparr>steps = steps this, timeoutMs = Some ms, abortSignal = abortSignal this\<rparr>, h)"


section \<open>Batch Scheduler\<close>

text \<open>
  The invocations of \<open>run\<close> made by \<open>runMany\<close> overlap in time. \<open>runner i x\<close> is how
  the invocation \<open>this.run(inputs[i], options)\<close> with \<open>x = inputs[i]\<close> settles:
  \<open>Some (Inr v)\<close> fulfilled with \<open>v\<close>, \<open>Some (Inl e)\<close> rejected with \<open>e\<close>,
  \<open>None\<close> never. It takes the index too, since the outcome of an invocation may depend
  on when it was started. The order in which pending invocations settle is a schedule:
  the list of the workers whose \<open>await\<close> is resumed, in order.
\<close>

type_synonym ('a, 'b) runner = "nat \<Rightarrow> 'a \<Rightarrow> (error + 'b) option"

text \<open>
  A worker is suspended at its \<open>await\<close> on the run of an index, has left its loop
  through \<open>break\<close>, or was ended by the error of a run.
\<close>

datatype worker = Awaiting nat | Exited | Threw

text \<open>
  The variables shared by the workers (\<open>index\<close>, \<open>results\<close>), the workers, the first
  rejection among them, and three observers that the source does not have: the claims
  made (worker, index) in order, the number of invocations of \<open>run\<close> in flight and its
  maximum so far.
\<close>

record 'b pool =
  index :: nat
  results :: "'b option list"
  workers :: "worker list"
  failure :: "error option"
  claims :: "(nat \<times> nat) list"
  inFlight :: nat
  maxInFlight :: nat

text \<open>
  Lines 115-119, for worker \<open>w\<close> over \<open>n\<close> inputs: from \<open>index++\<close> to the next
  \<open>await\<close> or to \<open>break\<close>. Nothing else runs in between.
\<close>

definition worker_loop :: "nat \<Rightarrow> nat \<Rightarrow> 'b pool \<Rightarrow> 'b pool" where
  "worker_loop n w st =
     (let currentIndex = index st;
          st' = st\<lparr>index := index st + 1\<rparr>
      in if currentIndex \<ge> n then st'\<lparr>workers := (workers st')[w := Exited]\<rparr>
         else st'\<lparr>workers := (workers st')[w := Awaiting currentIndex],
                   claims := claims st' @ [(w, currentIndex)],
                   inFlight := inFlight st' + 1,
                   maxInFlight := max (maxInFlight st') (inFlight st' + 1)\<rparr>)"

text \<open>Line 126: \<open>workers.push(worker())\<close>.\<close>

definition spawn :: "nat \<Rightarrow> 'b pool \<Rightarrow> 'b pool" where
  "spawn n st = worker_loop n (length (workers st)) (st\<lparr>workers := workers st @ [Exited]\<rparr>)"

text \<open>Lines 111-127: the state when \<open>runMany\<close> reaches \<open>await Promise.all(workers)\<close>.\<close>

definition pool_start :: "nat \<Rightarrow> nat \<Rightarrow> 'b pool" where
  "pool_start n workerCount =
     fold (\<lambda>i. spawn n) [0..<workerCount]
       \<lparr>index = 0, results = replicate n None, workers = [], failure = None,
        claims = [], inFlight = 0, maxInFlight = 0\<rparr>"

text \<open>
  The run awaited by worker \<open>w\<close> settles: line 119 stores the value and the loop goes
  round, or the error ends the worker and rejects \<open>Promise.all\<close> if it is the first.
\<close>

definition settle :: "('a, 'b) runner \<Rightarrow> 'a list \<Rightarrow> nat \<Rightarrow> 'b pool \<Rightarrow> 'b pool" where
  "settle runner inputs w st =
     (if w < length (workers st) then
        (case workers st ! w of
           Awaiting i \<Rightarrow>
             (case runner i (inputs ! i) of
                None \<Rightarrow> st
              | Some (Inr v) \<Rightarrow>
                  worker_loop (length inputs) w
                    (st\<lparr>results := (results st)[i := Some v], inFlight := inFlight st - 1\<rparr>)
              | Some (Inl e) \<Rightarrow>
                  st\<lparr>workers := (workers st)[w := Threw], inFlight := inFlight st - 1,
                     failure := (case failure st of None \<Rightarrow> Some e | Some e0 \<Rightarrow> Some e0)\<rparr>)
         | _ \<Rightarrow> st)
      else st)"

definition pool_run :: "('a, 'b) runner \<Rightarrow> 'a list \<Rightarrow> nat \<Rightarrow> nat list \<Rightarrow> 'b pool" where
  "pool_run runner inputs workerCount sched =
     fold (settle runner inputs) sched (pool_start (length inputs) workerCount)"

text \<open>The promise \<open>runMany\<close> returns: \<open>results\<close> once \<open>Promise.all(workers)\<close> is fulfilled.\<close>

datatype 'b batch = Batch_Fulfilled "'b option list" | Batch_Rejected error | Batch_Pending

definition pool_promise :: "'b pool \<Rightarrow> 'b batch" where
  "pool_promise st =
     (case failure st of
        Some e \<Rightarrow> Batch_Rejected e
      | None \<Rightarrow>
          if list_all (\<lambda>w. w = Exited) (workers st) then Batch_Fulfilled (results st)
          else Batch_Pending)"

text \<open>
  Line 108, \<open>Promise.all(inputs.map((input) => this.run(input, options)))\<close>: here the
  schedule lists the indices of the runs in the order in which they settle.
\<close>

definition fan_out :: "('a, 'b) runner \<Rightarrow> 'a list \<Rightarrow> nat list \<Rightarrow> 'b batch" where
  "fan_out runner inputs sched =
     (case List.map_filter
             (\<lambda>i. if i < length inputs
                   then (case runner i (inputs ! i) of Some (Inl e) \<Rightarrow> Some e | _ \<Rightarrow> None)
                   else None) sched of
        e # es \<Rightarrow> Batch_Rejected e
      | [] \<Rightarrow>
          if list_all (\<lambda>i. i \<in> set sched \<and> runner i (inputs ! i) \<noteq> None) [0..<length inputs]
          then Batch_Fulfilled
                 (map (\<lambda>i. case runner i (inputs ! i) of Some (Inr v) \<Rightarrow> Some v | _ \<Rightarrow> None)
                    [0..<length inputs])
          else Batch_Pending)"

text \<open>Lines 100-131. \<open>concurrency_arg\<close> is \<open>options?.concurrency\<close>.\<close>

definition runMany :: "('a, 'b) runner \<Rightarrow> 'a list \<Rightarrow> int option \<Rightarrow> nat list \<Rightarrow> 'b batch" where
  "runMany runner inputs concurrency_arg sched =
     (let concurrency = (case concurrency_arg of Some k \<Rightarrow> k | None \<Rightarrow> int (length inputs))
      in if length inputs = 0 then Batch_Fulfilled []
         else if concurrency \<le> 0 \<or> concurrency \<ge> int (length inputs)
         then fan_out runner inputs sched
         else (let workerCount = nat (min concurrency (int (length inputs)))
               in pool_promise (pool_run runner inputs workerCount sched)))"

section \<open>Notions used to state the properties\<close>

text \<open>A signal that is absent or is never aborted.\<close>

definition never_aborted :: "abort_signal option \<Rightarrow> bool" where
  "never_aborted sg = (case sg of None \<Rightarrow> True | Some s \<Rightarrow> abort_at s = None)"

text \<open>
  Attempt \<open>k\<close> of a step fails: the awaited promise of the call with
  \<open>context.retryCount = k\<close> is rejected, by the function or by the timeout.
\<close>

definition attempt_fails ::
  "Quantam \<Rightarrow> nat option \<Rightarrow> 'a AsyncFn \<Rightarrow> 'a jsval \<Rightarrow> ExecutionContext \<Rightarrow> nat \<Rightarrow> bool" where
  "attempt_fails this stepTimeout f input ctx k =
     (case awaited this stepTimeout (f input (ctx\<lparr>retryCount := k\<rparr>)) of
        Rejects d e \<Rightarrow> True
      | _ \<Rightarrow> False)"

text \<open>Attempt \<open>k\<close> succeeds: that promise is fulfilled.\<close>

definition attempt_succeeds ::
  "Quantam \<Rightarrow> nat option \<Rightarrow> 'a AsyncFn \<Rightarrow> 'a jsval \<Rightarrow> ExecutionContext \<Rightarrow> nat \<Rightarrow> bool" where
  "attempt_succeeds this stepTimeout f input ctx k =
     (case awaited this stepTimeout (f input (ctx\<lparr>retryCount := k\<rparr>)) of
        Resolves d v \<Rightarrow> True
      | _ \<Rightarrow> False)"

text \<open>
  The failures by which the step executor reports a set cancellation signal: the error
  of an aborted \<open>sleep\<close>, and the error of \<open>checkAborted\<close> as it leaves the executor.
\<close>

definition Cancelled :: "ExecutionContext \<Rightarrow> error \<Rightarrow> bool" where
  "Cancelled ctx e =
     (e = Error ''Sleep aborted'' \<or> e = after_loop ctx (Some (Error ''Pipeline aborted'')))"

text \<open>The backoff as the specification words it: \<open>retryDelayMs * 2^i\<close>.\<close>

definition spec_backoff :: "nat \<Rightarrow> nat \<Rightarrow> int" where
  "spec_backoff retryDelayMs i = int retryDelayMs * 2 ^ i"

text \<open>The suffix as the specification words it: \<open>(at step '<name>')\<close>.\<close>

definition spec_suffix :: "string \<Rightarrow> string" where
  "spec_suffix n = ''(at step '' @ [CHR 0x27] @ n @ [CHR 0x27] @ '')''"

text \<open>
  The message of the failure of an exhausted step, as the amended claim C7 words it: the
  suffix is added when the step has a name that is not empty and the message does not
  contain the quoted name preceded by a space.
\<close>

definition labelled :: "string option \<Rightarrow> string \<Rightarrow> string" where
  "labelled nm msg =
     (case nm of
        None \<Rightarrow> msg
      | Some n \<Rightarrow>
          if n \<noteq> '''' \<and> \<not> js_includes msg ('' '' @ [CHR 0x27] @ n @ [CHR 0x27])
          then msg @ '' '' @ spec_suffix n
          else msg)"

section \<open>Example steps\<close>

text \<open>A context as \<open>run\<close> creates it, without a signal.\<close>

definition ctx0 :: ExecutionContext where
  "ctx0 = \<lparr>signal = None, stepIndex = 0, stepName = None, retryCount = 0\<rparr>"

text \<open>The steps of the repository's tests: \<open>n + 1\<close>, \<open>n * 2\<close>, each at once.\<close>

fun plus_one :: "int jsval \<Rightarrow> int jsval" where
  "plus_one (Val n) = Val (n + 1)"
| "plus_one (Arr vs) = Arr vs"

fun times_two :: "int jsval \<Rightarrow> int jsval" where
  "times_two (Val n) = Val (n * 2)"
| "times_two (Arr vs) = Arr vs"

definition step_plus_one :: "int AsyncFn" where
  "step_plus_one x ctx = Resolves 0 (plus_one x)"

definition step_times_two :: "int AsyncFn" where
  "step_times_two x ctx = Resolves 0 (times_two x)"

text \<open>
  The test "retries and exposes retryCount": throws while \<open>retryCount < 2\<close>, then
  returns \<open>n + retryCount\<close>.
\<close>

fun plus_retryCount :: "nat \<Rightarrow> int jsval \<Rightarrow> int jsval" where
  "plus_retryCount k (Val n) = Val (n + int k)"
| "plus_retryCount k (Arr vs) = Arr vs"

definition step_flaky :: "int AsyncFn" where
  "step_flaky x ctx =
     (if retryCount ctx < 2 then Rejects 0 (Error ''transient'')
      else Resolves 0 (plus_retryCount (retryCount ctx) x))"

text \<open>A step that takes 20 ms, as in the test "stepTimeout rejects slow step".\<close>

definition step_slow :: "int AsyncFn" where
  "step_slow x ctx = Resolves 20 (plus_one x)"

text \<open>A step that always throws at once, with a given message.\<close>

definition step_throws :: "string \<Rightarrow> int AsyncFn" where
  "step_throws msg x ctx = Rejects 0 (Error msg)"

text \<open>A context of a step named \<open>load\<close> whose signal was aborted at instant 0.\<close>

definition ctx_aborted :: ExecutionContext where
  "ctx_aborted =
     \<lparr>signal = Some (AbortSignal (Some 0)), stepIndex = 0, stepName = Some ''load'',
      retryCount = 0\<rparr>"

text \<open>\<open>quantam().step(f).retry(1, 0)\<close>, with \<open>f\<close> throwing \<open>boom\<close>.\<close>

definition flow_retry_zero :: "Quantam \<times> int heap" where
  "flow_retry_zero =
     (let (f1, h1) = Quantam_step (step_throws ''boom'') quantam []
      in Quantam_retry 1 (Some 0) f1 h1)"

text \<open>The message \<open>value 'x' rejected\<close>.\<close>

definition msg_quoting_x :: string where
  "msg_quoting_x = ''value '' @ [CHR 0x27] @ ''x'' @ [CHR 0x27] @ '' rejected''"

text \<open>\<open>quantam().step(f).name('x')\<close>, with \<open>f\<close> throwing that message.\<close>

definition flow_named_x :: "Quantam \<times> int heap" where
  "flow_named_x =
     (let (f1, h1) = Quantam_step (step_throws msg_quoting_x) quantam []
      in Quantam_name ''x'' f1 h1)"

text \<open>A context of a step named \<open>load\<close>, without a signal.\<close>

definition ctx_load :: ExecutionContext where
  "ctx_load = \<lparr>signal = None, stepIndex = 0, stepName = Some ''load'', retryCount = 0\<rparr>"

text \<open>
  The run of a list of steps on \<open>x\<close>, from step \<open>i\<close> on, meets no failure and step \<open>j\<close>
  computes \<open>g\<^sub>j\<close>: each step is a single step whose function, called by \<open>run\<close> on the
  output of the step before it, has its awaited promise fulfilled (it does not throw and
  no timeout fires) with \<open>g\<^sub>j\<close> of that input.
\<close>

fun no_failures ::
  "Quantam \<Rightarrow> abort_signal option \<Rightarrow> nat \<Rightarrow> 'a Step list \<Rightarrow> ('a jsval \<Rightarrow> 'a jsval) list
     \<Rightarrow> 'a jsval \<Rightarrow> bool" where
  "no_failures this sg i [] [] x = True"
| "no_failures this sg i (s # ss) (g # gs) x =
     (case (type s, fn s) of
        (single, Some f) \<Rightarrow>
          (case awaited this (timeout s)
                  (f x \<lparr>signal = sg, stepIndex = i, stepName = name s, retryCount = 0\<rparr>) of
             Resolves d v \<Rightarrow> v = g x \<and> no_failures this sg (i + 1) ss gs (g x)
           | _ \<Rightarrow> False)
      | _ \<Rightarrow> False)"
| "no_failures this sg i ss gs x = False"

text \<open>The composition \<open>g\<^sub>k(...(g\<^sub>1(x)))\<close> of the specification.\<close>

definition composition :: "('a \<Rightarrow> 'a) list \<Rightarrow> 'a \<Rightarrow> 'a" where
  "composition gs x = fold (\<lambda>g v. g v) gs x"

text \<open>The flow of the test "runs basic sequential pipeline": \<open>n + 1\<close>, then \<open>n * 2\<close>.\<close>

definition flow_basic :: "Quantam \<times> int heap" where
  "flow_basic =
     (let (f1, h1) = Quantam_step step_plus_one quantam []
      in Quantam_step step_times_two f1 h1)"

text \<open>\<open>quantam().step(f)\<close> for the flaky step of the tests.\<close>

definition flow_flaky :: "Quantam \<times> int heap" where
  "flow_flaky = Quantam_step step_flaky quantam []"

text \<open>The context object an event writes to.\<close>

fun event_ctx :: "event \<Rightarrow> nat option" where
  "event_ctx (Invoked t c k) = Some c"
| "event_ctx e = None"

text \<open>
  What \<open>context.retryCount\<close> of the context object \<open>c\<close> holds at instant \<open>t\<close>, going by
  the writes of a list of events: the value of the latest write at or before \<open>t\<close>
  (\<open>None\<close> before the first).
\<close>

definition retryCount_at :: "event list \<Rightarrow> nat \<Rightarrow> time \<Rightarrow> nat option" where
  "retryCount_at evs c t =
     map_option snd
       (fold (\<lambda>e best.
                case e of
                  Invoked t' c' k \<Rightarrow>
                    if c' = c \<and> t' \<le> t \<and> (case best of None \<Rightarrow> True | Some (tb, kb) \<Rightarrow> tb \<le> t')
                    then Some (t', k) else best
                | _ \<Rightarrow> best)
          evs None)"

text \<open>
  \<open>quantam().parallel([f, g]).retry(2, 10)\<close>, with \<open>f\<close> the flaky step of the tests and
  \<open>g\<close> taking 20 ms.
\<close>

definition flow_group :: "Quantam \<times> int heap" where
  "flow_group =
     (let (f1, h1) = Quantam_parallel [step_flaky, step_slow] quantam []
      in Quantam_retry 2 (Some 10) f1 h1)"

text \<open>A worker that is suspended at its \<open>await\<close>: one invocation of \<open>run\<close> in flight.\<close>

fun awaiting :: "worker \<Rightarrow> bool" where
  "awaiting (Awaiting i) = True"
| "awaiting w = False"

text \<open>
  What holds of the pool of \<open>C\<close> workers whenever no worker is running: the indices
  claimed are those below the cursor, in order; the invocations in flight are those of
  the suspended workers; a worker waits for an index that was claimed; a worker has left
  its loop only when the cursor is exhausted; a stored result is the value of the run of
  its index; and an index that was claimed is in flight, or has its result, or a run has
  failed.
\<close>

definition pool_inv :: "('a, 'b) runner \<Rightarrow> 'a list \<Rightarrow> nat \<Rightarrow> 'b pool \<Rightarrow> bool" where
  "pool_inv runner inputs C st =
     (length (workers st) = C \<and> length (results st) = length inputs \<and>
      map snd (claims st) = [0..<min (index st) (length inputs)] \<and>
      inFlight st = length (filter awaiting (workers st)) \<and>
      maxInFlight st \<le> C \<and>
      (\<forall>w i. w < C \<and> workers st ! w = Awaiting i \<longrightarrow> i < index st \<and> i < length inputs) \<and>
      (\<forall>w. w < C \<and> workers st ! w = Exited \<longrightarrow> length inputs \<le> index st) \<and>
      (\<forall>i v. i < length inputs \<and> results st ! i = Some v \<longrightarrow>
         runner i (inputs ! i) = Some (Inr v)) \<and>
      (\<forall>i. i < index st \<and> i < length inputs \<longrightarrow>
         (\<exists>w<C. workers st ! w = Awaiting i) \<or> (\<exists>v. results st ! i = Some v) \<or>
         failure st \<noteq> None))"

text \<open>The array \<open>runMany\<close> promises: at each index the value of the run of that input.\<close>

definition run_values :: "('a, 'b) runner \<Rightarrow> 'a list \<Rightarrow> 'b option list" where
  "run_values runner inputs =
     map (\<lambda>i. case runner i (inputs ! i) of Some (Inr v) \<Rightarrow> Some v | _ \<Rightarrow> None)
       [0..<length inputs]"

text \<open>
  How the invocation \<open>this.run(inputs[i], options)\<close> made for index \<open>i\<close> settles, when it
  is started at instant \<open>start i\<close>; the context object it creates is given the address
  \<open>i\<close>.
\<close>

definition run_outcome ::
  "Quantam \<Rightarrow> 'a heap \<Rightarrow> abort_signal option \<Rightarrow> (nat \<Rightarrow> time)
     \<Rightarrow> ('a jsval, 'a jsval) runner" where
  "run_outcome this h options start i x =
     (case fst (run this h options x i (start i)) of
        Fulfilled t v \<Rightarrow> Some (Inr v)
      | Rejected t e \<Rightarrow> Some (Inl e)
      | Pending \<Rightarrow> None)"

text \<open>The flow of the batch example: \<open>quantam().step(async (n) => n + 1)\<close>.\<close>

definition flow_plus_one :: "Quantam \<times> int heap" where
  "flow_plus_one = Quantam_step step_plus_one quantam []"

text \<open>A flow whose only step throws: \<open>quantam().step(f)\<close>, with \<open>f\<close> throwing \<open>boom\<close>.\<close>

definition flow_throws :: "Quantam \<times> int heap" where
  "flow_throws = Quantam_step (step_throws ''boom'') quantam []"

section \<open>Facts about the step executor\<close>

lemma never_aborted_not_aborted: "never_aborted sg \<Longrightarrow> \<not> aborted sg t"
  by (auto simp: never_aborted_def aborted_def split: option.splits)

lemma never_aborted_sleep: "never_aborted sg \<Longrightarrow> sleep ms sg t = Woke (t + nat ms)"
  by (auto simp: never_aborted_def sleep_def aborted_def split: option.splits)

lemma aborted_sleep: "aborted sg t \<Longrightarrow> sleep ms sg t = SleepRejected t"
  by (cases sg) (auto simp: sleep_def aborted_def)

lemma invocations_append [simp]: "invocations (xs @ ys) = invocations xs @ invocations ys"
  by (induction xs rule: invocations.induct) auto

lemma sleeps_append [simp]: "sleeps (xs @ ys) = sleeps xs @ sleeps ys"
  by (induction xs rule: sleeps.induct) auto

text \<open>A failing attempt under a signal that is never aborted: the loop goes on.\<close>

lemma pass_fails:
  assumes "never_aborted (signal ctx)" "attempt_fails this st f input ctx a"
  shows "\<exists>d e. awaited this st (f input (ctx\<lparr>retryCount := a\<rparr>)) = Rejects d e \<and>
     attempt_pass this f input c ctx r rd st a t =
       (if a < r
        then Continue e (t + d + nat (backoff_delay rd a))
               [Invoked t c a, Slept (t + d) (backoff_delay rd a)]
        else Continue e (t + d) [Invoked t c a])"
  using assms
  by (auto simp: attempt_fails_def attempt_pass_def checkAborted_def never_aborted_not_aborted
      on_catch_def never_aborted_sleep Let_def split: behaviour.splits)

lemma pass_succeeds:
  assumes "never_aborted (signal ctx)" "attempt_succeeds this st f input ctx a"
  shows "\<exists>d v. awaited this st (f input (ctx\<lparr>retryCount := a\<rparr>)) = Resolves d v \<and>
     attempt_pass this f input c ctx r rd st a t = Decided (Fulfilled (t + d) v) [Invoked t c a]"
  using assms
  by (auto simp: attempt_succeeds_def attempt_pass_def checkAborted_def never_aborted_not_aborted
      Let_def split: behaviour.splits)

text \<open>The loop from attempt \<open>a\<close>, when the attempts before \<open>k\<close> fail and \<open>k\<close> succeeds.\<close>

lemma retry_until_success:
  assumes na: "never_aborted (signal ctx)"
    and ok: "attempt_succeeds this st f input ctx k"
  shows "a \<le> k \<Longrightarrow> k \<le> r \<Longrightarrow>
     \<forall>j. a \<le> j \<and> j < k \<longrightarrow> attempt_fails this st f input ctx j \<Longrightarrow>
     \<exists>T v evs. executeSingleStep_from this f input c ctx r rd st a le t = (Fulfilled T v, evs) \<and>
       invocations evs = [a..<k + 1] \<and> sleeps evs = map (backoff_delay rd) [a..<k]"
proof (induction "k - a" arbitrary: a le t)
  case 0
  then have ak: "a = k" by simp
  from pass_succeeds[OF na ok] obtain d v where
    "attempt_pass this f input c ctx r rd st k t = Decided (Fulfilled (t + d) v) [Invoked t c k]"
    by blast
  then show ?case using 0 ak
    by (subst executeSingleStep_from.simps) simp
next
  case (Suc n)
  then have lt: "a < k" "a < r" "a \<le> r" by auto
  with Suc.prems have "attempt_fails this st f input ctx a" by simp
  from pass_fails[OF na this] lt obtain d e where
    p: "attempt_pass this f input c ctx r rd st a t =
          Continue e (t + d + nat (backoff_delay rd a))
            [Invoked t c a, Slept (t + d) (backoff_delay rd a)]"
    by (metis (full_types))
  have "n = k - (a + 1)" using Suc.hyps by simp
  from Suc.hyps(1)[OF this, of "Some e" "t + d + nat (backoff_delay rd a)"] Suc.prems lt
  obtain T v evs where
    r: "executeSingleStep_from this f input c ctx r rd st (a + 1) (Some e)
          (t + d + nat (backoff_delay rd a)) = (Fulfilled T v, evs)"
      "invocations evs = [a + 1..<k + 1]" "sleeps evs = map (backoff_delay rd) [a + 1..<k]"
    by force
  show ?case
    using lt p r by (subst executeSingleStep_from.simps) (simp add: upt_conv_Cons)
qed

text \<open>The loop from attempt \<open>a\<close>, when every attempt up to the last fails.\<close>

lemma retry_until_exhausted:
  assumes na: "never_aborted (signal ctx)"
    and last: "awaited this st (f input (ctx\<lparr>retryCount := r\<rparr>)) = Rejects dl el"
  shows "a \<le> r \<Longrightarrow> \<forall>j. a \<le> j \<and> j < r \<longrightarrow> attempt_fails this st f input ctx j \<Longrightarrow>
     \<exists>T evs. executeSingleStep_from this f input c ctx r rd st a le t =
                (Rejected T (after_loop ctx (Some el)), evs) \<and>
       invocations evs = [a..<r + 1] \<and> sleeps evs = map (backoff_delay rd) [a..<r]"
proof (induction "r - a" arbitrary: a le t)
  case 0
  then have ar: "a = r" by simp
  have "attempt_fails this st f input ctx r" using last by (simp add: attempt_fails_def)
  from pass_fails[OF na this, of c r rd t] last
  have "attempt_pass this f input c ctx r rd st r t = Continue el (t + dl) [Invoked t c r]"
    by simp
  then show ?case using ar
    by (simp add: executeSingleStep_from.simps[of _ _ _ _ _ r _ _ r]
        executeSingleStep_from.simps[of _ _ _ _ _ r _ _ "Suc r"])
next
  case (Suc n)
  then have lt: "a < r" "a \<le> r" by auto
  with Suc.prems have "attempt_fails this st f input ctx a" by simp
  from pass_fails[OF na this] lt obtain d e where
    p: "attempt_pass this f input c ctx r rd st a t =
          Continue e (t + d + nat (backoff_delay rd a))
            [Invoked t c a, Slept (t + d) (backoff_delay rd a)]"
    by (metis (full_types))
  have "n = r - (a + 1)" using Suc.hyps by simp
  from Suc.hyps(1)[OF this, of "Some e" "t + d + nat (backoff_delay rd a)"] Suc.prems lt
  obtain T evs where
    r: "executeSingleStep_from this f input c ctx r rd st (a + 1) (Some e)
          (t + d + nat (backoff_delay rd a)) = (Rejected T (after_loop ctx (Some el)), evs)"
      "invocations evs = [a + 1..<r + 1]" "sleeps evs = map (backoff_delay rd) [a + 1..<r]"
    by force
  show ?case
    using lt p r by (subst executeSingleStep_from.simps) (simp add: upt_conv_Cons)
qed

text \<open>
  What one pass adds to the calls and to the completed sleeps. A pass that does not call
  the function found the signal aborted, so its sleep is rejected too: the loop goes on
  without a call only from the last attempt.
\<close>

lemma pass_cases:
  "(\<exists>res evs. attempt_pass this f input c ctx r rd st a t = Decided res evs \<and>
      (invocations evs = [a] \<or> invocations evs = []) \<and> sleeps evs = [])
   \<or> (\<exists>e t' evs. attempt_pass this f input c ctx r rd st a t = Continue e t' evs \<and>
      invocations evs = [a] \<and> sleeps evs = [backoff_delay rd a] \<and> a < r)
   \<or> (\<exists>e t' evs. attempt_pass this f input c ctx r rd st a t = Continue e t' evs \<and>
      (invocations evs = [a] \<or> invocations evs = []) \<and> sleeps evs = [] \<and> r \<le> a)"
  by (auto simp: attempt_pass_def checkAborted_def on_catch_def Let_def aborted_sleep
      split: behaviour.splits sleep_result.splits)

text \<open>
  In every execution the function is called with \<open>retryCount\<close> 0, 1, 2, ... in order,
  and the completed sleeps are those after attempts 0, 1, 2, ... in order.
\<close>

lemma calls_and_sleeps_consecutive:
  "\<exists>n m. n \<le> r + 1 - a \<and> m \<le> r - a \<and>
     invocations (snd (executeSingleStep_from this f input c ctx r rd st a le t)) = [a..<a + n] \<and>
     sleeps (snd (executeSingleStep_from this f input c ctx r rd st a le t)) =
       map (backoff_delay rd) [a..<a + m]"
proof (induction this f input c ctx r rd st a le t rule: executeSingleStep_from.induct)
  case (1 this f input c ctx r rd st a le t)
  show ?case
  proof (cases "a \<le> r")
    case False
    then show ?thesis by (subst (1 2) executeSingleStep_from.simps) simp
  next
    case True
    consider (dec) res evs where
        "attempt_pass this f input c ctx r rd st a t = Decided res evs"
        "invocations evs = [a] \<or> invocations evs = []" "sleeps evs = []"
      | (cont) e t' evs where
        "attempt_pass this f input c ctx r rd st a t = Continue e t' evs"
        "invocations evs = [a]" "sleeps evs = [backoff_delay rd a]" "a < r"
      | (last) e t' evs where
        "attempt_pass this f input c ctx r rd st a t = Continue e t' evs"
        "invocations evs = [a] \<or> invocations evs = []" "sleeps evs = []" "r \<le> a"
      using pass_cases[of this f input c ctx r rd st a t] by blast
    then show ?thesis
    proof cases
      case dec
      from dec(2) show ?thesis
      proof
        assume i: "invocations evs = [a]"
        show ?thesis
          apply (rule exI[of _ 1], rule exI[of _ 0])
          apply (subst (1 2) executeSingleStep_from.simps)
          using True dec i apply simp
          done
      next
        assume i: "invocations evs = []"
        show ?thesis
          apply (rule exI[of _ 0], rule exI[of _ 0])
          apply (subst (1 2) executeSingleStep_from.simps)
          using True dec i apply simp
          done
      qed
    next
      case cont
      from 1[OF True cont(1)] obtain n m where
        n: "n \<le> r + 1 - (a + 1)" "m \<le> r - (a + 1)"
           "invocations (snd (executeSingleStep_from this f input c ctx r rd st (a + 1) (Some e) t'))
              = [a + 1..<a + 1 + n]"
           "sleeps (snd (executeSingleStep_from this f input c ctx r rd st (a + 1) (Some e) t'))
              = map (backoff_delay rd) [a + 1..<a + 1 + m]"
        by blast
      have e1: "[a..<a + (n + 1)] = a # [a + 1..<a + 1 + n]"
        and e2: "[a..<a + (m + 1)] = a # [a + 1..<a + 1 + m]"
        by (simp_all add: upt_conv_Cons)
      have res: "executeSingleStep_from this f input c ctx r rd st a le t =
          apsnd (\<lambda>evs'. evs @ evs')
            (executeSingleStep_from this f input c ctx r rd st (a + 1) (Some e) t')"
        using True cont(1) by (subst executeSingleStep_from.simps) simp
      have "n + 1 \<le> r + 1 - a" "m + 1 \<le> r - a"
        using n(1,2) cont(4) by simp_all
      moreover have "invocations (snd (executeSingleStep_from this f input c ctx r rd st a le t))
          = [a..<a + (n + 1)]"
        unfolding res e1 using cont(2) n(3) by simp
      moreover have "sleeps (snd (executeSingleStep_from this f input c ctx r rd st a le t))
          = map (backoff_delay rd) [a..<a + (m + 1)]"
        unfolding res e2 using cont(3) n(4) by simp
      ultimately show ?thesis by blast
    next
      case last
      then have ar: "a = r" using True by simp
      have stop: "executeSingleStep_from this f input c ctx r rd st (Suc r) le' t' =
          (Rejected t' (after_loop ctx le'), [])" for le' t'
        by (subst executeSingleStep_from.simps) simp
      from last(2) show ?thesis
      proof
        assume i: "invocations evs = [a]"
        show ?thesis
          apply (rule exI[of _ 1], rule exI[of _ 0])
          apply (subst (1 2) executeSingleStep_from.simps)
          using True last ar i stop apply simp
          done
      next
        assume i: "invocations evs = []"
        show ?thesis
          apply (rule exI[of _ 0], rule exI[of _ 0])
          apply (subst (1 2) executeSingleStep_from.simps)
          using True last ar i stop apply simp
          done
      qed
    qed
  qed
qed

text \<open>The loop when the signal is found aborted as an attempt is about to start.\<close>

lemma cancelled_at_attempt:
  assumes "aborted (signal ctx) t" "a \<le> r"
  shows "executeSingleStep_from this f input c ctx r rd st a le t =
     (if a < r then (Rejected t (Error ''Sleep aborted''), [SleepAborted t (backoff_delay rd a)])
      else (Rejected t (after_loop ctx (Some (Error ''Pipeline aborted''))), []))"
proof (cases "a < r")
  case True
  then show ?thesis using assms
    by (subst executeSingleStep_from.simps)
       (simp add: attempt_pass_def checkAborted_def on_catch_def aborted_sleep)
next
  case False
  then have "a = r" using assms by simp
  then show ?thesis using assms
    by (simp add: executeSingleStep_from.simps[of _ _ _ _ _ r _ _ r]
        executeSingleStep_from.simps[of _ _ _ _ _ r _ _ "Suc r"]
        attempt_pass_def checkAborted_def on_catch_def)
qed

text \<open>With an effective timeout of 0 the awaited promise is the function's own.\<close>

lemma awaited_zero:
  assumes "nullish st (timeoutMs this) = Some 0"
  shows "awaited this st p = p"
  using assms by (simp add: awaited_def)

lemma awaited_none: "awaited (this\<lparr>timeoutMs := None\<rparr>) None p = p"
  by (simp add: awaited_def nullish_def)

lemma no_race_loop:
  assumes "nullish st (timeoutMs this) = Some 0"
  shows "executeSingleStep_from this f input c ctx r rd st a le t =
         executeSingleStep_from (this\<lparr>timeoutMs := None\<rparr>) f input c ctx r rd None a le t"
proof (induction "r + 1 - a" arbitrary: a le t)
  case 0
  then show ?case
    by (simp add: executeSingleStep_from.simps[of _ _ _ _ _ r _ _ a])
next
  case (Suc n)
  have p: "attempt_pass this f input c ctx r rd st a t =
        attempt_pass (this\<lparr>timeoutMs := None\<rparr>) f input c ctx r rd None a t"
    by (simp add: attempt_pass_def awaited_zero[OF assms] awaited_none Let_def
        split: option.splits)
  have ih: "executeSingleStep_from this f input c ctx r rd st (Suc a) le' t' =
         executeSingleStep_from (this\<lparr>timeoutMs := None\<rparr>) f input c ctx r rd None (Suc a) le' t'"
    for le' t'
    using Suc.hyps by (intro Suc.hyps(1)) simp
  show ?case
    by (subst executeSingleStep_from.simps, subst (2) executeSingleStep_from.simps)
       (simp add: p ih split: pass.splits)
qed

section \<open>Claim C1: sequential composition\<close>

lemma first_attempt_succeeds:
  assumes "never_aborted (signal ctx)"
    and "awaited this st (f x (ctx\<lparr>retryCount := 0\<rparr>)) = Resolves d v"
  shows "executeSingleStep this f x c ctx r rd st t = (Fulfilled (t + d) v, [Invoked t c 0])"
  using assms
  by (simp add: executeSingleStep_def executeSingleStep_from.simps attempt_pass_def
      checkAborted_def never_aborted_not_aborted)

lemma run_from_no_failures:
  "no_failures this sg i ss gs x \<Longrightarrow> never_aborted sg \<Longrightarrow>
     \<exists>T evs. run_from this ss i sg c x t = (Fulfilled T (composition gs x), evs) \<and>
        invocations evs = replicate (length gs) 0"
proof (induction this sg i ss gs x arbitrary: t rule: no_failures.induct)
  case (1 this sg i x)
  then show ?case by (simp add: composition_def)
next
  case (2 this sg i s ss g gs x)
  let ?ctx = "\<lparr>signal = sg, stepIndex = i, stepName = name s, retryCount = 0\<rparr>"
  note na = \<open>never_aborted sg\<close>
  from "2.prems"(1) obtain f d where
    s: "type s = single" "fn s = Some f"
    and a: "awaited this (timeout s) (f x ?ctx) = Resolves d (g x)"
    and rest: "no_failures this sg (i + 1) ss gs (g x)"
    by (auto split: step_type.splits option.splits behaviour.splits)
  have "executeSingleStep this f x c ?ctx r' rd' (timeout s) t =
      (Fulfilled (t + d) (g x), [Invoked t c 0])" for r' rd'
    by (rule first_attempt_succeeds) (use na a in simp_all)
  then have "run_step this s c ?ctx x t = (Fulfilled (t + d) (g x), [Invoked t c 0])"
    using s by (simp add: run_step_def)
  moreover from "2.IH"[OF refl s(1) s(2) a rest na, of "t + d"]
  obtain T evs where "run_from this ss (i + 1) sg c (g x) (t + d) = (Fulfilled T (composition gs (g x)), evs)"
    "invocations evs = replicate (length gs) 0"
    by auto
  ultimately show ?case
    using na by (auto simp: checkAborted_def never_aborted_not_aborted composition_def)
qed simp_all

text \<open>
  Claim C1. For a flow of single steps and an input \<open>x\<close>, when no failure occurs (no step
  function throws, no timeout fires, the signal is not aborted, so no retry is
  triggered), \<open>run\<close> is fulfilled with \<open>g\<^sub>k(...(g\<^sub>1(x)))\<close>, where \<open>g\<^sub>j\<close> is what
  step \<open>j\<close> computes: each step receives the output of the step before it and is called
  once, with \<open>retryCount = 0\<close>.
\<close>

theorem sequential_composition:
  assumes "never_aborted (case options of Some s \<Rightarrow> Some s | None \<Rightarrow> abortSignal this)"
    and "no_failures this (case options of Some s \<Rightarrow> Some s | None \<Rightarrow> abortSignal this) 0
           (steps_of h this) gs x"
  shows "(\<exists>T. fst (run this h options x c t) = Fulfilled T (composition gs x)) \<and>
         invocations (snd (run this h options x c t)) = replicate (length gs) 0"
  using run_from_no_failures[OF assms(2) assms(1), of c t] by (auto simp: run_def)

theorem sequential_composition_witness:
  "never_aborted (case None of Some s \<Rightarrow> Some s | None \<Rightarrow> abortSignal (fst flow_basic)) \<and>
   no_failures (fst flow_basic) (case None of Some s \<Rightarrow> Some s | None \<Rightarrow> abortSignal (fst flow_basic)) 0
      (steps_of (snd flow_basic) (fst flow_basic)) [plus_one, times_two] (Val 1) \<and>
   composition [plus_one, times_two] (Val 1) = Val 4 \<and>
   fst (run (fst flow_basic) (snd flow_basic) None (Val 1) 0 0) = Fulfilled 0 (Val 4)"
proof -
  have na: "never_aborted (case None of Some s \<Rightarrow> Some s | None \<Rightarrow> abortSignal (fst flow_basic))"
    by (simp add: flow_basic_def Quantam_step_def quantam_def never_aborted_def)
  have nf: "no_failures (fst flow_basic) (case None of Some s \<Rightarrow> Some s | None \<Rightarrow> abortSignal (fst flow_basic)) 0
      (steps_of (snd flow_basic) (fst flow_basic)) [plus_one, times_two] (Val 1)"
    by (simp add: flow_basic_def Quantam_step_def quantam_def steps_of_def awaited_def nullish_def
        step_plus_one_def step_times_two_def)
  have c: "composition [plus_one, times_two] (Val 1) = Val 4"
    by (simp add: composition_def)
  from sequential_composition[OF na nf, of 0 0] c
  obtain T where T: "fst (run (fst flow_basic) (snd flow_basic) None (Val 1) 0 0) = Fulfilled T (Val 4)"
    by auto
  have "fst (run (fst flow_basic) (snd flow_basic) None (Val 1) 0 0) = Fulfilled 0 (Val 4)"
    by (simp add: run_def steps_of_def run_step_def or_default_def
        executeSingleStep_def executeSingleStep_from.simps attempt_pass_def checkAborted_def
        aborted_def awaited_def nullish_def step_plus_one_def step_times_two_def
        flow_basic_def Quantam_step_def quantam_def)
  with na nf c T show ?thesis by simp
qed

section \<open>Claim C2: the builder and previously returned flows\<close>

text \<open>
  Claim C2, on the code. With \<open>f1 = quantam().step(flaky)\<close>, the calls \<open>f1.name('a')\<close>,
  \<open>f1.retry(3, 1)\<close> and \<open>f1.stepTimeout(7)\<close> each return a new flow, and each changes the
  last step of \<open>f1\<close> itself: its name, retry policy and timeout are no longer the old
  ones, and \<open>f1.run(1)\<close>, which was rejected before, now retries and is fulfilled.
\<close>

theorem configuring_changes_original_flow:
  "(let (f1, h1) = flow_flaky;
        (f2, h2) = Quantam_name ''a'' f1 h1;
        (f3, h3) = Quantam_retry 3 (Some 1) f1 h2;
        (f4, h4) = Quantam_stepTimeout 7 f1 h3
    in name (last (steps_of h1 f1)) = None \<and> name (last (steps_of h2 f1)) = Some ''a'' \<and>
       retries (last (steps_of h2 f1)) = None \<and> retries (last (steps_of h3 f1)) = Some 3 \<and>
       retryDelay (last (steps_of h2 f1)) = None \<and> retryDelay (last (steps_of h3 f1)) = Some 1 \<and>
       timeout (last (steps_of h3 f1)) = None \<and> timeout (last (steps_of h4 f1)) = Some 7 \<and>
       fst (run f1 h1 None (Val 1) 0 0) = Rejected 0 (Error ''transient'') \<and>
       fst (run f1 h3 None (Val 1) 0 0) = Fulfilled 3 (Val 3))"
  by (simp add: flow_flaky_def Quantam_step_def Quantam_name_def Quantam_retry_def
      Quantam_stepTimeout_def quantam_def steps_of_def
      run_def run_step_def or_default_def
      executeSingleStep_def executeSingleStep_from.simps attempt_pass_def checkAborted_def
      aborted_def on_catch_def sleep_def backoff_delay_def js_shl_def awaited_def nullish_def
      step_flaky_def after_loop_def stepLabel_def)

section \<open>Claims C3 and C9: the worker pool of \<open>runMany\<close>\<close>

lemma filter_update_length:
  "w < length xs \<Longrightarrow>
   length (filter P (xs[w := y])) + (if P (xs ! w) then 1 else 0) =
   length (filter P xs) + (if P y then 1 else 0)"
proof (induction xs arbitrary: w)
  case Nil
  then show ?case by simp
next
  case (Cons x xs)
  then show ?case by (cases w) auto
qed

lemma filter_length_le: "length (filter P xs) \<le> length xs"
  by simp

text \<open>The state of the pool once the workers have been started.\<close>

lemma spawn_claims:
  "index st < n \<Longrightarrow>
   spawn n st =
     st\<lparr>index := index st + 1, workers := workers st @ [Awaiting (index st)],
        claims := claims st @ [(length (workers st), index st)],
        inFlight := inFlight st + 1,
        maxInFlight := max (maxInFlight st) (inFlight st + 1)\<rparr>"
  by (simp add: spawn_def worker_loop_def Let_def)

lemma spawned:
  "k \<le> n \<Longrightarrow>
   fold (\<lambda>i. spawn n) [0..<k]
     \<lparr>index = 0, results = replicate n None, workers = [], failure = None,
      claims = [], inFlight = 0, maxInFlight = 0\<rparr> =
   \<lparr>index = k, results = replicate n None, workers = map Awaiting [0..<k], failure = None,
    claims = map (\<lambda>i. (i, i)) [0..<k], inFlight = k, maxInFlight = k\<rparr>"
proof (induction k)
  case 0
  then show ?case by simp
next
  case (Suc k)
  then show ?case
    by (simp add: spawn_claims)
qed

lemma pool_start_eq:
  "C \<le> n \<Longrightarrow> pool_start n C =
   \<lparr>index = C, results = replicate n None, workers = map Awaiting [0..<C], failure = None,
    claims = map (\<lambda>i. (i, i)) [0..<C], inFlight = C, maxInFlight = C\<rparr>"
  by (simp add: pool_start_def spawned)

lemma filter_awaiting_all: "filter awaiting (map Awaiting xs) = map Awaiting xs"
  by (induction xs) auto

lemma pool_inv_start:
  assumes "C \<le> length inputs"
  shows "pool_inv runner inputs C (pool_start (length inputs) C)"
  using assms
  by (auto simp: pool_start_eq pool_inv_def filter_awaiting_all comp_def map_idI)


lemma awaiting_count_drop:
  assumes "w < length ws" "ws ! w = Awaiting i" "\<not> awaiting y"
  shows "length (filter awaiting (ws[w := y])) = length (filter awaiting ws) - 1"
    and "0 < length (filter awaiting ws)"
  using filter_update_length[OF assms(1), of awaiting y] assms(2,3) by auto

lemma awaiting_count_keep:
  assumes "w < length ws" "ws ! w = Awaiting i"
  shows "length (filter awaiting (ws[w := Awaiting j])) = length (filter awaiting ws)"
  using filter_update_length[OF assms(1), of awaiting "Awaiting j"] assms(2) by auto

text \<open>Every step of the pool keeps \<open>pool_inv\<close>.\<close>

lemma pool_inv_throw:
  assumes inv: "pool_inv runner inputs C st" and w: "w < C" "workers st ! w = Awaiting i"
  shows "pool_inv runner inputs C
     (st\<lparr>workers := (workers st)[w := Threw], inFlight := inFlight st - 1, failure := Some e\<rparr>)"
proof -
  from inv have len: "length (workers st) = C" by (simp add: pool_inv_def)
  have cnt: "length (filter awaiting ((workers st)[w := Threw])) = length (filter awaiting (workers st)) - 1"
    using awaiting_count_drop(1)[of w "workers st" i Threw] w len by simp
  show ?thesis
    using inv w cnt
    unfolding pool_inv_def
    by (auto simp: nth_list_update)
qed


lemma pool_inv_store:
  assumes inv: "pool_inv runner inputs C st" and w: "w < C" "workers st ! w = Awaiting i"
    and v: "runner i (inputs ! i) = Some (Inr v)"
  shows "pool_inv runner inputs C
     (worker_loop (length inputs) w
        (st\<lparr>results := (results st)[i := Some v], inFlight := inFlight st - 1\<rparr>))"
proof -
  have len: "length (workers st) = C" "length (results st) = length inputs"
    and I3: "map snd (claims st) = [0..<min (index st) (length inputs)]"
    and I4: "inFlight st = length (filter awaiting (workers st))"
    and I5: "maxInFlight st \<le> C"
    and I6: "\<And>w' i'. w' < C \<Longrightarrow> workers st ! w' = Awaiting i' \<Longrightarrow>
               i' < index st \<and> i' < length inputs"
    and I7: "\<And>w'. w' < C \<Longrightarrow> workers st ! w' = Exited \<Longrightarrow> length inputs \<le> index st"
    and I8: "\<And>i' v'. i' < length inputs \<Longrightarrow> results st ! i' = Some v' \<Longrightarrow>
               runner i' (inputs ! i') = Some (Inr v')"
    and I9: "\<And>i'. i' < index st \<Longrightarrow> i' < length inputs \<Longrightarrow>
               (\<exists>w'<C. workers st ! w' = Awaiting i') \<or> (\<exists>v'. results st ! i' = Some v') \<or>
               failure st \<noteq> None"
    using inv unfolding pool_inv_def by blast+
  from I6[OF w] have i: "i < index st" "i < length inputs" by simp_all
  have pos: "0 < length (filter awaiting (workers st))"
    using awaiting_count_drop(2)[of w "workers st" i Exited] w len by simp
  have c8: "\<forall>i' v'. i' < length inputs \<and> (results st)[i := Some v] ! i' = Some v' \<longrightarrow>
      runner i' (inputs ! i') = Some (Inr v')"
    using I8 v i len by (auto simp: nth_list_update split: if_splits)
  have old9: "(\<exists>w'<C. w' \<noteq> w \<and> workers st ! w' = Awaiting i') \<or>
      (\<exists>v'. (results st)[i := Some v] ! i' = Some v') \<or> failure st \<noteq> None"
    if "i' < index st" "i' < length inputs" for i'
  proof -
    from I9[OF that] consider
      (a) w' where "w' < C" "workers st ! w' = Awaiting i'"
      | (b) v' where "results st ! i' = Some v'"
      | (c) "failure st \<noteq> None"
      by blast
    then show ?thesis
    proof cases
      case a
      show ?thesis
      proof (cases "w' = w")
        case True
        with a w have "i' = i" by simp
        then show ?thesis using i len by simp
      next
        case False
        with a show ?thesis by blast
      qed
    next
      case b
      then show ?thesis using len that by (cases "i' = i") simp_all
    next
      case c
      then show ?thesis by simp
    qed
  qed
  show ?thesis
  proof (cases "length inputs \<le> index st")
    case True
    have cnt: "length (filter awaiting ((workers st)[w := Exited])) =
        length (filter awaiting (workers st)) - 1"
      using awaiting_count_drop(1)[of w "workers st" i Exited] w len by simp
    have c6: "\<forall>w' i'. w' < C \<and> (workers st)[w := Exited] ! w' = Awaiting i' \<longrightarrow>
        i' < Suc (index st) \<and> i' < length inputs"
      using I6 len w(1) by (auto simp: nth_list_update split: if_splits dest: less_SucI)
    have c9: "\<forall>i'. i' < Suc (index st) \<and> i' < length inputs \<longrightarrow>
        (\<exists>w'<C. (workers st)[w := Exited] ! w' = Awaiting i') \<or>
        (\<exists>v'. (results st)[i := Some v] ! i' = Some v') \<or> failure st \<noteq> None"
    proof (intro allI impI)
      fix i' assume "i' < Suc (index st) \<and> i' < length inputs"
      with True have "i' < index st" "i' < length inputs" by simp_all
      from old9[OF this] len w(1) show "(\<exists>w'<C. (workers st)[w := Exited] ! w' = Awaiting i') \<or>
        (\<exists>v'. (results st)[i := Some v] ! i' = Some v') \<or> failure st \<noteq> None"
        by (auto simp: nth_list_update)
    qed
    have mn: "min (Suc (index st)) (length inputs) = min (index st) (length inputs)"
      using True by simp
    show ?thesis
      unfolding pool_inv_def worker_loop_def Let_def
      using True len I3 I4 I5 cnt c6 c8 c9 mn by simp
  next
    case False
    have cnt: "length (filter awaiting ((workers st)[w := Awaiting (index st)])) =
        length (filter awaiting (workers st))"
      using awaiting_count_keep[of w "workers st" i] w len by simp
    have le: "length (filter awaiting (workers st)) \<le> C"
      using len filter_length_le[of awaiting "workers st"] by simp
    have upt: "[0..<min (Suc (index st)) (length inputs)] =
        [0..<min (index st) (length inputs)] @ [index st]"
      using False by (simp add: min_def)
    have c6: "\<forall>w' i'. w' < C \<and> (workers st)[w := Awaiting (index st)] ! w' = Awaiting i' \<longrightarrow>
        i' < Suc (index st) \<and> i' < length inputs"
      using I6 len w(1) False by (auto simp: nth_list_update split: if_splits dest: less_SucI)
    have c7: "\<forall>w'. w' < C \<and> (workers st)[w := Awaiting (index st)] ! w' = Exited \<longrightarrow>
        length inputs \<le> Suc (index st)"
      using I7 len w(1) by (auto simp: nth_list_update split: if_splits intro: le_SucI)
    have c9: "\<forall>i'. i' < Suc (index st) \<and> i' < length inputs \<longrightarrow>
        (\<exists>w'<C. (workers st)[w := Awaiting (index st)] ! w' = Awaiting i') \<or>
        (\<exists>v'. (results st)[i := Some v] ! i' = Some v') \<or> failure st \<noteq> None"
    proof (intro allI impI)
      fix i' assume a: "i' < Suc (index st) \<and> i' < length inputs"
      show "(\<exists>w'<C. (workers st)[w := Awaiting (index st)] ! w' = Awaiting i') \<or>
        (\<exists>v'. (results st)[i := Some v] ! i' = Some v') \<or> failure st \<noteq> None"
      proof (cases "i' = index st")
        case True
        then show ?thesis using w len by (auto simp: nth_list_update)
      next
        case False
        with a have "i' < index st" "i' < length inputs" by simp_all
        from old9[OF this] len w(1) show ?thesis
          by (auto simp: nth_list_update)
      qed
    qed
    show ?thesis
      unfolding pool_inv_def worker_loop_def Let_def
      using False len I3 I4 I5 cnt c6 c7 c8 c9 upt pos le by simp
  qed
qed

lemma pool_inv_settle:
  assumes "pool_inv runner inputs C st"
  shows "pool_inv runner inputs C (settle runner inputs w st)"
proof -
  from assms have len: "length (workers st) = C" by (simp add: pool_inv_def)
  show ?thesis
    using assms len pool_inv_throw[OF assms, of w] pool_inv_store[OF assms, of w]
    by (auto simp: settle_def split: worker.splits option.splits sum.splits)
qed

lemma pool_inv_fold:
  "pool_inv runner inputs C st \<Longrightarrow> pool_inv runner inputs C (fold (settle runner inputs) sched st)"
  by (induction sched arbitrary: st) (simp_all add: pool_inv_settle)

lemma pool_inv_run:
  assumes "C \<le> length inputs"
  shows "pool_inv runner inputs C (pool_run runner inputs C sched)"
  unfolding pool_run_def by (rule pool_inv_fold, rule pool_inv_start, rule assms)


lemma runMany_pool:
  assumes "0 < c" "c < int (length inputs)"
  shows "runMany runner inputs (Some c) sched =
         pool_promise (pool_run runner inputs (nat c) sched)"
  using assms by (auto simp: runMany_def Let_def min_def)

lemma pool_fulfilled:
  assumes inv: "pool_inv runner inputs C st" and C: "0 < C"
    and ok: "pool_promise st = Batch_Fulfilled rs"
  shows "map snd (claims st) = [0..<length inputs] \<and> rs = run_values runner inputs \<and>
    (\<forall>i<length inputs. \<exists>v. runner i (inputs ! i) = Some (Inr v) \<and> rs ! i = Some v)"
proof -
  have len: "length (workers st) = C" "length (results st) = length inputs"
    and I3: "map snd (claims st) = [0..<min (index st) (length inputs)]"
    and I7: "\<And>w'. w' < C \<Longrightarrow> workers st ! w' = Exited \<Longrightarrow> length inputs \<le> index st"
    and I8: "\<And>i' v'. i' < length inputs \<Longrightarrow> results st ! i' = Some v' \<Longrightarrow>
               runner i' (inputs ! i') = Some (Inr v')"
    and I9: "\<And>i'. i' < index st \<Longrightarrow> i' < length inputs \<Longrightarrow>
               (\<exists>w'<C. workers st ! w' = Awaiting i') \<or> (\<exists>v'. results st ! i' = Some v') \<or>
               failure st \<noteq> None"
    using inv unfolding pool_inv_def by blast+
  from ok have nf: "failure st = None" and ex: "list_all (\<lambda>w. w = Exited) (workers st)"
    and rs: "rs = results st"
    by (auto simp: pool_promise_def split: option.splits if_splits)
  have allex: "workers st ! w' = Exited" if "w' < C" for w'
    using ex that len by (simp add: list_all_length)
  from I7[OF C allex[OF C]] have past: "length inputs \<le> index st" .
  have each: "\<exists>v. runner i (inputs ! i) = Some (Inr v) \<and> rs ! i = Some v"
    if "i < length inputs" for i
  proof -
    from that past have "i < index st" by simp
    from I9[OF this that] nf allex obtain v where "results st ! i = Some v"
      by force
    with I8[OF that this] rs show ?thesis by simp
  qed
  have "rs = run_values runner inputs"
  proof (rule nth_equalityI)
    show "length rs = length (run_values runner inputs)"
      using rs len by (simp add: run_values_def)
  next
    fix i assume "i < length rs"
    then have "i < length inputs" using rs len by simp
    from each[OF this] this show "rs ! i = run_values runner inputs ! i"
      by (auto simp: run_values_def)
  qed
  moreover have "map snd (claims st) = [0..<length inputs]"
    using I3 past by (simp add: min_def)
  ultimately show ?thesis using each by blast
qed

text \<open>The claims and the results of the pool, for any outcomes of the runs.\<close>

lemma pool_claims_and_results:
  assumes "0 < c" "c < int (length inputs)"
  shows "distinct (map snd (claims (pool_run runner inputs (nat c) sched))) \<and>
     map snd (claims (pool_run runner inputs (nat c) sched)) =
       [0..<min (index (pool_run runner inputs (nat c) sched)) (length inputs)] \<and>
     (\<forall>rs. runMany runner inputs (Some c) sched = Batch_Fulfilled rs \<longrightarrow>
        map snd (claims (pool_run runner inputs (nat c) sched)) = [0..<length inputs] \<and>
        rs = run_values runner inputs \<and>
        (\<forall>i<length inputs. \<exists>v. runner i (inputs ! i) = Some (Inr v) \<and> rs ! i = Some v))"
proof -
  let ?st = "pool_run runner inputs (nat c) sched"
  from assms have C: "0 < nat c" "nat c \<le> length inputs" by simp_all
  have inv: "pool_inv runner inputs (nat c) ?st"
    by (rule pool_inv_run[OF C(2)])
  then have cl: "map snd (claims ?st) = [0..<min (index ?st) (length inputs)]"
    by (simp add: pool_inv_def)
  then have "distinct (map snd (claims ?st))" by simp
  moreover have "map snd (claims ?st) = [0..<length inputs] \<and> rs = run_values runner inputs \<and>
        (\<forall>i<length inputs. \<exists>v. runner i (inputs ! i) = Some (Inr v) \<and> rs ! i = Some v)"
    if "runMany runner inputs (Some c) sched = Batch_Fulfilled rs" for rs
  proof -
    from that runMany_pool[OF assms, of runner sched]
    have "pool_promise ?st = Batch_Fulfilled rs" by simp
    from pool_fulfilled[OF inv C(1) this] show ?thesis .
  qed
  ultimately show ?thesis using cl by blast
qed

text \<open>The number of runs in flight, for any outcomes of the runs.\<close>

lemma pool_in_flight:
  assumes "0 < c" "c < int (length inputs)"
  shows "inFlight (pool_run runner inputs (nat c) sched) =
           length (filter awaiting (workers (pool_run runner inputs (nat c) sched))) \<and>
         int (inFlight (pool_run runner inputs (nat c) sched)) \<le> c \<and>
         int (maxInFlight (pool_run runner inputs (nat c) sched)) \<le> c"
proof -
  let ?st = "pool_run runner inputs (nat c) sched"
  from assms have C: "nat c \<le> length inputs" by simp
  have inv: "pool_inv runner inputs (nat c) ?st"
    by (rule pool_inv_run[OF C])
  then have "inFlight ?st = length (filter awaiting (workers ?st))"
    "length (workers ?st) = nat c" "maxInFlight ?st \<le> nat c"
    by (simp_all add: pool_inv_def)
  moreover have "length (filter awaiting (workers ?st)) \<le> length (workers ?st)"
    by simp
  ultimately have "int (inFlight ?st) \<le> c" "int (maxInFlight ?st) \<le> c"
    and "inFlight ?st = length (filter awaiting (workers ?st))"
    using assms by linarith+
  then show ?thesis by simp
qed

text \<open>The pool of the batch example on three inputs with two workers.\<close>

lemma run_outcome_plus_one:
  "run_outcome (fst flow_plus_one) (snd flow_plus_one) None (\<lambda>i. 0) i (Val n) =
     Some (Inr (Val (n + 1)))"
  by (simp add: run_outcome_def run_def steps_of_def run_step_def or_default_def
      executeSingleStep_def executeSingleStep_from.simps attempt_pass_def checkAborted_def
      aborted_def awaited_def nullish_def step_plus_one_def
      flow_plus_one_def Quantam_step_def quantam_def)

lemma pool_run_example:
  "pool_run (run_outcome (fst flow_plus_one) (snd flow_plus_one) None (\<lambda>i. 0))
       [Val 0, Val 1, Val 2] 2 [1, 0, 1] =
     \<lparr>index = 5, results = [Some (Val 1), Some (Val 2), Some (Val 3)],
      workers = [Exited, Exited], failure = None,
      claims = [(0, 0), (1, 1), (1, 2)], inFlight = 0, maxInFlight = 2\<rparr>"
  by (simp add: pool_run_def pool_start_def spawn_def worker_loop_def settle_def Let_def
      run_outcome_plus_one upt_conv_Cons)

text \<open>
  Claim C3, amended. With \<open>0 < C < N\<close> and whatever the order in which the runs
  settle, the indices claimed by the workers are \<open>0, 1, 2, ...\<close> in order up to the
  cursor: no index is claimed twice and none below the cursor is passed over. When
  \<open>runMany\<close> is fulfilled, every index of \<open>[0, N)\<close> has been claimed, exactly once, and
  the array returned holds at each index \<open>i\<close> the value with which \<open>run\<close> of
  \<open>inputs[i]\<close> was fulfilled. Coverage of \<open>[0, N)\<close> is stated for a fulfilled batch
  only: a worker whose run is rejected leaves its loop without claiming again.
\<close>

theorem batch_claims_and_results:
  assumes "0 < c" "c < int (length inputs)"
  shows "distinct (map snd (claims (pool_run (run_outcome this h options start) inputs (nat c) sched))) \<and>
     map snd (claims (pool_run (run_outcome this h options start) inputs (nat c) sched)) =
       [0..<min (index (pool_run (run_outcome this h options start) inputs (nat c) sched))
              (length inputs)] \<and>
     (\<forall>rs. runMany (run_outcome this h options start) inputs (Some c) sched = Batch_Fulfilled rs \<longrightarrow>
        map snd (claims (pool_run (run_outcome this h options start) inputs (nat c) sched)) =
          [0..<length inputs] \<and>
        length rs = length inputs \<and>
        (\<forall>i<length inputs. \<exists>T v.
           fst (run this h options (inputs ! i) i (start i)) = Fulfilled T v \<and> rs ! i = Some v))"
proof -
  let ?runner = "run_outcome this h options start"
  note g = pool_claims_and_results[OF assms, of ?runner sched]
  have "map snd (claims (pool_run ?runner inputs (nat c) sched)) = [0..<length inputs] \<and>
        length rs = length inputs \<and>
        (\<forall>i<length inputs. \<exists>T v.
           fst (run this h options (inputs ! i) i (start i)) = Fulfilled T v \<and> rs ! i = Some v)"
    if ok: "runMany ?runner inputs (Some c) sched = Batch_Fulfilled rs" for rs
  proof -
    from g ok have cl: "map snd (claims (pool_run ?runner inputs (nat c) sched)) = [0..<length inputs]"
      and rs: "rs = run_values ?runner inputs"
      and each: "\<And>i. i < length inputs \<Longrightarrow>
          \<exists>v. ?runner i (inputs ! i) = Some (Inr v) \<and> rs ! i = Some v"
      by blast+
    have "\<exists>T v. fst (run this h options (inputs ! i) i (start i)) = Fulfilled T v \<and> rs ! i = Some v"
      if "i < length inputs" for i
      using each[OF that] by (auto simp: run_outcome_def split: settled.splits)
    then show ?thesis using cl rs by (simp add: run_values_def)
  qed
  then show ?thesis using g by blast
qed

theorem batch_claims_and_results_witness:
  "(0::int) < 2 \<and> (2::int) < int (length [Val 0, Val 1, Val 2 :: int jsval]) \<and>
   runMany (run_outcome (fst flow_plus_one) (snd flow_plus_one) None (\<lambda>i. 0))
       [Val 0, Val 1, Val 2] (Some 2) [1, 0, 1] =
     Batch_Fulfilled [Some (Val 1), Some (Val 2), Some (Val 3)] \<and>
   map snd (claims (pool_run (run_outcome (fst flow_plus_one) (snd flow_plus_one) None (\<lambda>i. 0))
       [Val 0, Val 1, Val 2] (nat 2) [1, 0, 1])) = [0..<length [Val 0, Val 1, Val 2 :: int jsval]]"
proof -
  have c: "(0::int) < 2" "(2::int) < int (length [Val 0, Val 1, Val 2 :: int jsval])"
    by simp_all
  have r: "runMany (run_outcome (fst flow_plus_one) (snd flow_plus_one) None (\<lambda>i. 0))
       [Val 0, Val 1, Val 2] (Some 2) [1, 0, 1] =
     Batch_Fulfilled [Some (Val 1), Some (Val 2), Some (Val 3)]"
    by (simp add: runMany_def pool_promise_def pool_run_example[simplified])
  from batch_claims_and_results[OF c, of "fst flow_plus_one" "snd flow_plus_one" None "\<lambda>i. 0"
      "[1, 0, 1]"] r
  have "map snd (claims (pool_run (run_outcome (fst flow_plus_one) (snd flow_plus_one) None (\<lambda>i. 0))
       [Val 0, Val 1, Val 2] (nat 2) [1, 0, 1])) = [0..<length [Val 0, Val 1, Val 2 :: int jsval]]"
    by blast
  with c r show ?thesis by simp
qed

text \<open>
  The pool of one worker on two inputs, for a flow whose step throws: the run of index
  0 is rejected, which ends the only worker (line 119 throws out of the loop).
\<close>

lemma run_outcome_throws:
  "run_outcome (fst flow_throws) (snd flow_throws) None (\<lambda>i. 0) i x =
     Some (Inl (Error ''boom''))"
  by (simp add: run_outcome_def run_def steps_of_def run_step_def or_default_def
      executeSingleStep_def executeSingleStep_from.simps attempt_pass_def checkAborted_def
      aborted_def on_catch_def after_loop_def stepLabel_def awaited_def nullish_def
      step_throws_def flow_throws_def Quantam_step_def quantam_def)

lemma pool_start_throws:
  "pool_start (Suc (Suc 0)) (Suc 0) =
     (\<lparr>index = 1, results = [None, None], workers = [Awaiting 0], failure = None,
       claims = [(0, 0)], inFlight = 1, maxInFlight = 1\<rparr> :: int jsval pool)"
  by (simp add: pool_start_def spawn_def worker_loop_def Let_def)

lemma pool_run_throws:
  "pool_run (run_outcome (fst flow_throws) (snd flow_throws) None (\<lambda>i. 0))
       [Val 0, Val 1] 1 sched =
     (if 0 \<in> set sched
      then \<lparr>index = 1, results = [None, None], workers = [Threw],
            failure = Some (Error ''boom''), claims = [(0, 0)], inFlight = 0, maxInFlight = 1\<rparr>
      else \<lparr>index = 1, results = [None, None], workers = [Awaiting 0], failure = None,
            claims = [(0, 0)], inFlight = 1, maxInFlight = 1\<rparr>)"
proof (induction sched rule: rev_induct)
  case Nil
  show ?case by (simp add: pool_run_def pool_start_throws)
next
  case (snoc w ws)
  then show ?case
    by (simp add: pool_run_def settle_def run_outcome_throws)
qed

text \<open>
  Claim C3 as stated fails: it has every index of \<open>[0, N)\<close> claimed by a worker in every
  \<open>runMany\<close> with \<open>0 < C < N\<close>. With \<open>C = 1\<close>, \<open>N = 2\<close> and a flow whose step throws,
  \<open>runMany\<close> is rejected with the error of the run of index 0, and in whatever order the
  runs settle the only index claimed is 0: index 1 is never claimed and never run, and
  \<open>runMany\<close> is never fulfilled.
\<close>

theorem batch_claims_counterexample:
  "(0::int) < 1 \<and> (1::int) < int (length [Val 0, Val 1 :: int jsval]) \<and>
   runMany (run_outcome (fst flow_throws) (snd flow_throws) None (\<lambda>i. 0))
       [Val 0, Val 1] (Some 1) [0] = Batch_Rejected (Error ''boom'') \<and>
   (\<forall>sched.
      map snd (claims (pool_run (run_outcome (fst flow_throws) (snd flow_throws) None (\<lambda>i. 0))
        [Val 0, Val 1] (nat 1) sched)) = [0] \<and>
      1 \<notin> set (map snd (claims (pool_run
        (run_outcome (fst flow_throws) (snd flow_throws) None (\<lambda>i. 0))
        [Val 0, Val 1] (nat 1) sched))) \<and>
      (\<forall>rs. runMany (run_outcome (fst flow_throws) (snd flow_throws) None (\<lambda>i. 0))
        [Val 0, Val 1] (Some 1) sched \<noteq> Batch_Fulfilled rs))"
  by (simp add: pool_run_throws[simplified] runMany_def pool_promise_def)

text \<open>
  Claim C9. With \<open>0 < C < N\<close> and whatever the order in which the runs settle, the
  number of invocations of \<open>run\<close> in flight (those of the workers suspended at their
  \<open>await\<close>) is at most \<open>C\<close> at every point of \<open>runMany\<close>, and so is the maximum it has
  reached.
\<close>

theorem batch_concurrency_bound:
  assumes "0 < c" "c < int (length inputs)"
  shows "runMany (run_outcome this h options start) inputs (Some c) sched =
           pool_promise (pool_run (run_outcome this h options start) inputs (nat c) sched) \<and>
         inFlight (pool_run (run_outcome this h options start) inputs (nat c) sched) =
           length (filter awaiting
             (workers (pool_run (run_outcome this h options start) inputs (nat c) sched))) \<and>
         int (inFlight (pool_run (run_outcome this h options start) inputs (nat c) sched)) \<le> c \<and>
         int (maxInFlight (pool_run (run_outcome this h options start) inputs (nat c) sched)) \<le> c"
  using pool_in_flight[OF assms, of "run_outcome this h options start" sched]
    runMany_pool[OF assms, of "run_outcome this h options start" sched]
  by simp

theorem batch_concurrency_bound_witness:
  "(0::int) < 2 \<and> (2::int) < int (length [Val 0, Val 1, Val 2 :: int jsval]) \<and>
   maxInFlight (pool_run (run_outcome (fst flow_plus_one) (snd flow_plus_one) None (\<lambda>i. 0))
       [Val 0, Val 1, Val 2] (nat 2) [1, 0, 1]) = 2 \<and>
   int (inFlight (pool_run (run_outcome (fst flow_plus_one) (snd flow_plus_one) None (\<lambda>i. 0))
       [Val 0, Val 1, Val 2] (nat 2) [1])) \<le> 2"
proof -
  have c: "(0::int) < 2" "(2::int) < int (length [Val 0, Val 1, Val 2 :: int jsval])"
    by simp_all
  from batch_concurrency_bound[OF c, of "fst flow_plus_one" "snd flow_plus_one" None "\<lambda>i. 0" "[1]"]
  have 2: "int (inFlight (pool_run (run_outcome (fst flow_plus_one) (snd flow_plus_one) None (\<lambda>i. 0))
       [Val 0, Val 1, Val 2] (nat 2) [1])) \<le> 2"
    by simp
  have "maxInFlight (pool_run (run_outcome (fst flow_plus_one) (snd flow_plus_one) None (\<lambda>i. 0))
       [Val 0, Val 1, Val 2] (nat 2) [1, 0, 1]) = 2"
    by (simp add: pool_run_example[simplified])
  with c 2 show ?thesis by simp
qed

section \<open>Claim C4: retry count\<close>

text \<open>
  A fulfilled execution, under any signal: the attempt that succeeded is the last call,
  and every attempt before it failed.
\<close>

lemma pass_fulfilled:
  "attempt_pass this f input c ctx r rd st a t = Decided (Fulfilled T v) evs \<Longrightarrow>
   attempt_succeeds this st f input ctx a \<and> invocations evs = [a]"
  by (auto simp: attempt_pass_def checkAborted_def on_catch_def Let_def attempt_succeeds_def
      split: behaviour.splits sleep_result.splits if_splits)

lemma pass_continue:
  "attempt_pass this f input c ctx r rd st a t = Continue e t' evs \<Longrightarrow> a < r \<Longrightarrow>
   attempt_fails this st f input ctx a \<and> invocations evs = [a]"
  by (auto simp: attempt_pass_def checkAborted_def on_catch_def Let_def attempt_fails_def
      aborted_sleep split: behaviour.splits sleep_result.splits if_splits)

lemma fulfilled_trace:
  "executeSingleStep_from this f input c ctx r rd st a le t = (Fulfilled T v, evs) \<Longrightarrow>
   \<exists>k. a \<le> k \<and> k \<le> r \<and> invocations evs = [a..<k + 1] \<and>
       attempt_succeeds this st f input ctx k \<and>
       (\<forall>j. a \<le> j \<and> j < k \<longrightarrow> attempt_fails this st f input ctx j)"
proof (induction this f input c ctx r rd st a le t arbitrary: evs
    rule: executeSingleStep_from.induct)
  case (1 this f input c ctx r rd st a le t)
  from "1.prems" have ar: "a \<le> r"
    by (subst (asm) executeSingleStep_from.simps) (simp split: if_splits)
  show ?case
  proof (cases "attempt_pass this f input c ctx r rd st a t")
    case (Decided res evs0)
    with "1.prems" ar have "res = Fulfilled T v" "evs0 = evs"
      by (subst (asm) executeSingleStep_from.simps, simp)+
    with Decided pass_fulfilled[of this f input c ctx r rd st a t T v evs]
    have "attempt_succeeds this st f input ctx a" "invocations evs = [a]" by simp_all
    then show ?thesis using ar by (intro exI[of _ a]) auto
  next
    case (Continue e t' evs0)
    from "1.prems" ar Continue obtain evs1 where
      rec: "executeSingleStep_from this f input c ctx r rd st (a + 1) (Some e) t' = (Fulfilled T v, evs1)"
      and evs: "evs = evs0 @ evs1"
      by (subst (asm) executeSingleStep_from.simps) (auto simp: apsnd_def map_prod_def split: prod.splits)
    have lt: "a < r"
    proof (rule ccontr)
      assume "\<not> a < r"
      then have "r < a + 1" by simp
      with rec show False
        by (subst (asm) executeSingleStep_from.simps) simp
    qed
    from pass_continue[OF Continue lt] have fa: "attempt_fails this st f input ctx a"
      and i0: "invocations evs0 = [a]" by simp_all
    from "1.IH"[OF ar Continue rec] obtain k where
      k: "a + 1 \<le> k" "k \<le> r" "invocations evs1 = [a + 1..<k + 1]"
         "attempt_succeeds this st f input ctx k"
         "\<forall>j. a + 1 \<le> j \<and> j < k \<longrightarrow> attempt_fails this st f input ctx j"
      by blast
    have "invocations evs = [a..<k + 1]"
      using evs i0 k(1,3) by (simp add: upt_conv_Cons)
    moreover have "\<forall>j. a \<le> j \<and> j < k \<longrightarrow> attempt_fails this st f input ctx j"
    proof (intro allI impI)
      fix j assume "a \<le> j \<and> j < k"
      then show "attempt_fails this st f input ctx j"
        using fa k(5) by (cases "j = a") auto
    qed
    ultimately show ?thesis using k by (intro exI[of _ k]) auto
  qed
qed

text \<open>
  Claim C4. One execution of a step with \<open>r\<close> retries calls the step function at most
  \<open>r + 1\<close> times. If the attempts before \<open>k\<close> fail and attempt \<open>k \<le> r\<close> succeeds (the
  signal not being aborted), the execution is fulfilled, the function has been called with
  \<open>retryCount\<close> 0, 1, ..., \<open>k\<close> in this order, so it sees \<open>retryCount = k\<close> on its
  last call, and it has been called \<open>k + 1\<close> times. And whenever an execution is
  fulfilled, it is so by an attempt \<open>k \<le> r\<close> after the failure of the attempts before
  it, with exactly these calls.
\<close>

theorem retry_count:
  "length (invocations (snd (executeSingleStep this f input c ctx r d st t))) \<le> r + 1 \<and>
   (never_aborted (signal ctx) \<and> k \<le> r \<and> (\<forall>j<k. attempt_fails this st f input ctx j) \<and>
      attempt_succeeds this st f input ctx k \<longrightarrow>
    (\<exists>T v. fst (executeSingleStep this f input c ctx r d st t) = Fulfilled T v) \<and>
    invocations (snd (executeSingleStep this f input c ctx r d st t)) = [0..<k + 1] \<and>
    last (invocations (snd (executeSingleStep this f input c ctx r d st t))) = k \<and>
    length (invocations (snd (executeSingleStep this f input c ctx r d st t))) = k + 1) \<and>
   (\<forall>T v. fst (executeSingleStep this f input c ctx r d st t) = Fulfilled T v \<longrightarrow>
      (\<exists>n\<le>r. invocations (snd (executeSingleStep this f input c ctx r d st t)) = [0..<n + 1] \<and>
         attempt_succeeds this st f input ctx n \<and>
         (\<forall>j<n. attempt_fails this st f input ctx j)))"
proof (intro conjI impI allI)
  from calls_and_sleeps_consecutive[of r 0 this f input c ctx d st None t]
  show "length (invocations (snd (executeSingleStep this f input c ctx r d st t))) \<le> r + 1"
    by (auto simp: executeSingleStep_def)
next
  assume h: "never_aborted (signal ctx) \<and> k \<le> r \<and> (\<forall>j<k. attempt_fails this st f input ctx j) \<and>
      attempt_succeeds this st f input ctx k"
  then obtain T v evs where
    r: "executeSingleStep this f input c ctx r d st t = (Fulfilled T v, evs)"
       "invocations evs = [0..<k + 1]"
    using retry_until_success[of ctx this st f input k 0 r c d None t]
    by (auto simp: executeSingleStep_def)
  show "\<exists>T v. fst (executeSingleStep this f input c ctx r d st t) = Fulfilled T v"
    using r by simp
  show "invocations (snd (executeSingleStep this f input c ctx r d st t)) = [0..<k + 1]"
    using r by simp
  show "last (invocations (snd (executeSingleStep this f input c ctx r d st t))) = k"
    using r by simp
  show "length (invocations (snd (executeSingleStep this f input c ctx r d st t))) = k + 1"
    using r by simp
next
  fix T v assume "fst (executeSingleStep this f input c ctx r d st t) = Fulfilled T v"
  then have "executeSingleStep_from this f input c ctx r d st 0 None t =
      (Fulfilled T v, snd (executeSingleStep this f input c ctx r d st t))"
    by (simp add: executeSingleStep_def prod_eq_iff)
  from fulfilled_trace[OF this]
  show "\<exists>n\<le>r. invocations (snd (executeSingleStep this f input c ctx r d st t)) = [0..<n + 1] \<and>
         attempt_succeeds this st f input ctx n \<and>
         (\<forall>j<n. attempt_fails this st f input ctx j)"
    by auto
qed

theorem retry_count_witness:
  "never_aborted (signal ctx0) \<and> (2::nat) \<le> 3 \<and>
   attempt_fails quantam None step_flaky (Val 1) ctx0 0 \<and>
   attempt_fails quantam None step_flaky (Val 1) ctx0 1 \<and>
   attempt_succeeds quantam None step_flaky (Val 1) ctx0 2 \<and>
   fst (executeSingleStep quantam step_flaky (Val 1) 0 ctx0 3 1 None 0) = Fulfilled 3 (Val 3) \<and>
   invocations (snd (executeSingleStep quantam step_flaky (Val 1) 0 ctx0 3 1 None 0)) = [0, 1, 2] \<and>
   length (invocations (snd (executeSingleStep quantam step_flaky (Val 1) 0 ctx0 3 1 None 0))) \<le> 3 + 1 \<and>
   (\<exists>n\<le>3. invocations (snd (executeSingleStep quantam step_flaky (Val 1) 0 ctx0 3 1 None 0)) =
      [0..<n + 1] \<and> attempt_succeeds quantam None step_flaky (Val 1) ctx0 n)"
proof -
  have na: "never_aborted (signal ctx0)" by (simp add: ctx0_def never_aborted_def)
  have f0: "attempt_fails quantam None step_flaky (Val 1) ctx0 0"
    and f1: "attempt_fails quantam None step_flaky (Val 1) ctx0 1"
    and s2: "attempt_succeeds quantam None step_flaky (Val 1) ctx0 2"
    by (simp_all add: attempt_fails_def attempt_succeeds_def awaited_def nullish_def quantam_def
        step_flaky_def ctx0_def)
  have fs: "\<forall>j<2. attempt_fails quantam None step_flaky (Val 1) ctx0 j"
    using f0 f1 by (simp add: less_2_cases_iff)
  have ev: "executeSingleStep quantam step_flaky (Val 1) 0 ctx0 3 1 None 0 =
      (Fulfilled 3 (Val 3), [Invoked 0 0 0, Slept 0 1, Invoked 1 0 1, Slept 1 2, Invoked 3 0 2])"
    by (simp add: executeSingleStep_def executeSingleStep_from.simps attempt_pass_def
        checkAborted_def aborted_def on_catch_def sleep_def backoff_delay_def js_shl_def
        awaited_def nullish_def quantam_def step_flaky_def ctx0_def)
  note inst = retry_count[of quantam step_flaky "Val 1" 0 ctx0 3 1 None 0 2]
  from inst na fs s2
  have a: "invocations (snd (executeSingleStep quantam step_flaky (Val 1) 0 ctx0 3 1 None 0)) = [0..<2 + 1]"
    and b: "length (invocations (snd (executeSingleStep quantam step_flaky (Val 1) 0 ctx0 3 1 None 0))) \<le> 3 + 1"
    by simp_all
  from inst ev
  have c: "\<exists>n\<le>3. invocations (snd (executeSingleStep quantam step_flaky (Val 1) 0 ctx0 3 1 None 0)) =
      [0..<n + 1] \<and> attempt_succeeds quantam None step_flaky (Val 1) ctx0 n"
    by (metis fst_conv)
  from a b c show ?thesis using na f0 f1 s2 ev by (simp add: upt_conv_Cons)
qed

section \<open>Claim C5: cancellation found before an attempt\<close>

text \<open>
  Claim C5. When the signal is aborted at the instant attempt \<open>a\<close> is about to start,
  the executor is rejected at that same instant with a cancellation failure (the error
  of the aborted sleep while retries remain, the error of \<open>checkAborted\<close> on the last
  attempt), the step function is not called, no backoff sleep runs, and this does not
  depend on how many retries remain.
\<close>

theorem cancelled_before_attempt:
  assumes "aborted (signal ctx) t" and "a \<le> r"
  shows "fst (executeSingleStep_from this f input c ctx r d st a lastError t) =
           Rejected t (if a < r then Error ''Sleep aborted''
                       else after_loop ctx (Some (Error ''Pipeline aborted''))) \<and>
         (\<exists>e. fst (executeSingleStep_from this f input c ctx r d st a lastError t) = Rejected t e \<and>
              Cancelled ctx e) \<and>
         invocations (snd (executeSingleStep_from this f input c ctx r d st a lastError t)) = [] \<and>
         sleeps (snd (executeSingleStep_from this f input c ctx r d st a lastError t)) = []"
  using cancelled_at_attempt[OF assms, of this f input c d st lastError]
  by (simp add: Cancelled_def)

theorem cancelled_before_attempt_witness:
  "aborted (signal ctx_aborted) 5 \<and> (0::nat) \<le> 3 \<and>
   executeSingleStep_from quantam step_plus_one (Val 1) 0 ctx_aborted 3 100 None 0 None 5 =
     (Rejected 5 (Error ''Sleep aborted''), [SleepAborted 5 100]) \<and>
   invocations (snd (executeSingleStep_from quantam step_plus_one (Val 1) 0 ctx_aborted 3 100 None 0 None 5)) = []"
proof -
  have a: "aborted (signal ctx_aborted) 5" by (simp add: ctx_aborted_def aborted_def)
  have ev: "executeSingleStep_from quantam step_plus_one (Val 1) 0 ctx_aborted 3 100 None 0 None 5 =
     (Rejected 5 (Error ''Sleep aborted''), [SleepAborted 5 100])"
    by (simp add: executeSingleStep_from.simps attempt_pass_def checkAborted_def aborted_def
        on_catch_def sleep_def backoff_delay_def js_shl_def ctx_aborted_def)
  from cancelled_before_attempt[OF a, of 0 3 quantam step_plus_one "Val 1" 0 100 None None]
  have "invocations (snd (executeSingleStep_from quantam step_plus_one (Val 1) 0 ctx_aborted 3 100 None 0 None 5)) = []"
    by simp
  then show ?thesis using a ev by simp
qed

section \<open>Claim C6: backoff delays\<close>

text \<open>The shift \<open>1 << i\<close> is \<open>2^i\<close> as long as \<open>i\<close> is at most 30.\<close>

lemma push_bit_word_of_int32:
  "push_bit n (word_of_int k :: 32 word) = word_of_int (push_bit n k)"
  by (simp add: push_bit_eq_mult)

lemma js_shl_int: "js_shl a b = signed_take_bit 31 (push_bit (b mod 32) a)"
  by (simp add: js_shl_def push_bit_word_of_int32 sint_sbintrunc')

lemma js_shl_one_small: "i < 31 \<Longrightarrow> js_shl 1 i = 2 ^ i"
proof -
  assume i: "i < 31"
  then have "(2::int) ^ i < 2 ^ 31" by (intro power_strict_increasing) simp_all
  moreover have "- (2 ^ 31) \<le> (2::int) ^ i"
    by (rule order_trans[of _ 0]) simp_all
  ultimately have "signed_take_bit 31 ((2::int) ^ i) = 2 ^ i"
    by (rule signed_take_bit_int_eq_self[rotated])
  then show ?thesis using i by (simp add: js_shl_int push_bit_of_1)
qed

lemma backoff_small: "i < 31 \<Longrightarrow> backoff_delay d i = spec_backoff d i"
  by (simp add: backoff_delay_def spec_backoff_def js_shl_one_small)

lemma spec_backoff_mono: "i \<le> j \<Longrightarrow> spec_backoff d i \<le> spec_backoff d j"
  by (simp add: spec_backoff_def mult_left_mono power_increasing)

lemma sorted_spec_backoff: "sorted (map (spec_backoff d) [a..<b])"
  by (simp add: sorted_map sorted_wrt_map spec_backoff_mono sorted_wrt_iff_nth_less)

lemma backoff_map_small: "b \<le> 31 \<Longrightarrow> map (backoff_delay d) [a..<b] = map (spec_backoff d) [a..<b]"
  by (simp add: backoff_small)

text \<open>
  Claim C6, as amended. For a step with at most 31 retries, the backoff slept after
  attempt \<open>i\<close> is \<open>d * 2^i\<close>, where \<open>d\<close> is the configured delay, or 100 when the
  configured delay is 0 or absent (\<open>step.retryDelay || 100\<close>), so the delays slept in one
  execution never decrease; when the attempts before \<open>k\<close> fail and \<open>k\<close> succeeds they are
  exactly those for \<open>i = 0, ..., k - 1\<close>.
\<close>

theorem backoff_delays_amended:
  assumes "r \<le> 31"
  shows "(\<exists>m\<le>r. sleeps (snd (executeSingleStep this f input c ctx r (or_default rd 100) st t)) =
             map (spec_backoff (or_default rd 100)) [0..<m]) \<and>
         sorted (sleeps (snd (executeSingleStep this f input c ctx r (or_default rd 100) st t))) \<and>
         (never_aborted (signal ctx) \<and> k \<le> r \<and> (\<forall>j<k. attempt_fails this st f input ctx j) \<and>
            attempt_succeeds this st f input ctx k \<longrightarrow>
          sleeps (snd (executeSingleStep this f input c ctx r (or_default rd 100) st t)) =
             map (spec_backoff (or_default rd 100)) [0..<k])"
proof -
  let ?d = "or_default rd 100"
  let ?evs = "snd (executeSingleStep this f input c ctx r ?d st t)"
  from calls_and_sleeps_consecutive[of r 0 this f input c ctx ?d st None t]
  obtain m where m: "m \<le> r" "sleeps ?evs = map (backoff_delay ?d) [0..<m]"
    by (auto simp: executeSingleStep_def)
  then have eq: "sleeps ?evs = map (spec_backoff ?d) [0..<m]"
    using assms backoff_map_small[of m ?d 0] by simp
  have 1: "\<exists>m\<le>r. sleeps ?evs = map (spec_backoff ?d) [0..<m]"
    using m(1) eq by blast
  have 2: "sorted (sleeps ?evs)"
    unfolding eq by (rule sorted_spec_backoff)
  have 3: "sleeps ?evs = map (spec_backoff ?d) [0..<k]"
    if h: "never_aborted (signal ctx) \<and> k \<le> r \<and> (\<forall>j<k. attempt_fails this st f input ctx j) \<and>
            attempt_succeeds this st f input ctx k"
  proof -
    from h retry_until_success[of ctx this st f input k 0 r c ?d None t]
    have "sleeps ?evs = map (backoff_delay ?d) [0..<k]"
      by (auto simp: executeSingleStep_def)
    then show ?thesis using h assms backoff_map_small[of k ?d 0] by simp
  qed
  from 1 2 3 show ?thesis by blast
qed

text \<open>
  Claim C6 as stated fails: with \<open>retry(1, 0)\<close> the backoff after attempt 0 is 100 ms, not
  \<open>0 * 2^0\<close>; and \<open>1 << 31\<close> is negative and \<open>1 << 32\<close> is 1, so from attempt 31 on
  the delay is neither \<open>retryDelayMs * 2^i\<close> nor non-decreasing.
\<close>

theorem backoff_delays_counterexample:
  "sleeps (snd (run (fst flow_retry_zero) (snd flow_retry_zero) None (Val 1) 0 0)) = [100] \<and>
   map (spec_backoff 0) [0..<1] = [0] \<and>
   backoff_delay 1 31 = - 2147483648 \<and> spec_backoff 1 31 = 2147483648 \<and>
   backoff_delay 1 32 = 1 \<and> backoff_delay 1 30 = 1073741824"
proof -
  have "run (fst flow_retry_zero) (snd flow_retry_zero) None (Val 1) 0 0 =
     (Rejected 100 (Error ''boom''), [Invoked 0 0 0, Slept 0 100, Invoked 100 0 1])"
    by (simp add: run_def steps_of_def run_step_def or_default_def
        executeSingleStep_def executeSingleStep_from.simps attempt_pass_def checkAborted_def
        aborted_def on_catch_def sleep_def backoff_delay_def js_shl_def awaited_def nullish_def
        step_throws_def after_loop_def stepLabel_def
        flow_retry_zero_def Quantam_step_def Quantam_retry_def quantam_def)
  then show ?thesis
    by (simp add: spec_backoff_def backoff_delay_def js_shl_def)
qed

theorem backoff_delays_amended_witness:
  "(1::nat) \<le> 31 \<and>
   sleeps (snd (executeSingleStep quantam step_flaky (Val 1) 0 ctx0 3 (or_default (Some 0) 100) None 0))
     = [100, 200] \<and>
   sorted (sleeps (snd (executeSingleStep quantam step_flaky (Val 1) 0 ctx0 3 (or_default (Some 0) 100) None 0)))"
proof -
  have na: "never_aborted (signal ctx0)" by (simp add: ctx0_def never_aborted_def)
  have fs: "\<forall>j<2. attempt_fails quantam None step_flaky (Val 1) ctx0 j"
    by (simp add: less_2_cases_iff attempt_fails_def awaited_def nullish_def quantam_def
        step_flaky_def ctx0_def)
  have s2: "attempt_succeeds quantam None step_flaky (Val 1) ctx0 2"
    by (simp add: attempt_succeeds_def awaited_def nullish_def quantam_def step_flaky_def ctx0_def)
  have r: "(3::nat) \<le> 31" by simp
  note inst = backoff_delays_amended[OF r, of quantam step_flaky "Val 1" 0 ctx0 "Some 0" None 0 2]
  from inst have srt: "sorted (sleeps (snd (executeSingleStep quantam step_flaky (Val 1) 0 ctx0 3
      (or_default (Some 0) 100) None 0)))"
    by blast
  from inst na fs s2
  have "sleeps (snd (executeSingleStep quantam step_flaky (Val 1) 0 ctx0 3 (or_default (Some 0) 100) None 0))
      = map (spec_backoff (or_default (Some 0) 100)) [0..<2]"
    by simp
  then have "sleeps (snd (executeSingleStep quantam step_flaky (Val 1) 0 ctx0 3 (or_default (Some 0) 100) None 0))
      = [100, 200]"
    by (simp add: spec_backoff_def or_default_def upt_conv_Cons)
  with srt show ?thesis by simp
qed

section \<open>Claim C7: the failure of an exhausted step\<close>

text \<open>The code's rule for the message is the rule \<open>labelled\<close>.\<close>

lemma after_loop_labelled:
  "after_loop ctx (Some el) = Error (labelled (stepName ctx) (message el))"
  by (cases el)
     (simp add: after_loop_def stepLabel_def spec_suffix_def labelled_def split: option.splits)

text \<open>The last attempt, under any signal: when it fails, its error is what is thrown.\<close>

lemma last_attempt_fails:
  assumes "attempt_pass this f input c ctx r d st r t = Continue err t' evs"
  shows "executeSingleStep_from this f input c ctx r d st r le t =
     (Rejected t' (after_loop ctx (Some err)), evs)"
  using assms
  by (simp add: executeSingleStep_from.simps[of _ _ _ _ _ r _ _ r]
      executeSingleStep_from.simps[of _ _ _ _ _ r _ _ "Suc r"])

text \<open>
  Claim C7, as amended. When every attempt of a step fails, the executor is rejected with
  the error of the last attempt; its message gets the suffix \<open>(at step '<name>')\<close> exactly
  when the step has a name that is not empty and the message does not already contain
  the quoted name preceded by a space; otherwise the message is unchanged. The same holds
  of the last attempt taken alone, whatever made it fail.
\<close>

theorem exhausted_failure_amended:
  "(never_aborted (signal ctx) \<and> (\<forall>j<r. attempt_fails this st f input ctx j) \<and>
      awaited this st (f input (ctx\<lparr>retryCount := r\<rparr>)) = Rejects dl el \<longrightarrow>
    (\<exists>T. fst (executeSingleStep this f input c ctx r d st t) =
           Rejected T (Error (labelled (stepName ctx) (message el))))) \<and>
   (attempt_pass this f input c ctx r d st r t = Continue err t' evs \<longrightarrow>
    executeSingleStep_from this f input c ctx r d st r lastError t =
      (Rejected t' (Error (labelled (stepName ctx) (message err))), evs))"
proof (intro conjI impI)
  assume h: "never_aborted (signal ctx) \<and> (\<forall>j<r. attempt_fails this st f input ctx j) \<and>
      awaited this st (f input (ctx\<lparr>retryCount := r\<rparr>)) = Rejects dl el"
  from retry_until_exhausted[where ctx = ctx and this = this and st = st and f = f
      and input = input and r = r and dl = dl and el = el and a = 0 and c = c and rd = d
      and le = None and t = t] h
  obtain T where "fst (executeSingleStep this f input c ctx r d st t) =
      Rejected T (after_loop ctx (Some el))"
    by (auto simp: executeSingleStep_def)
  then show "\<exists>T. fst (executeSingleStep this f input c ctx r d st t) =
           Rejected T (Error (labelled (stepName ctx) (message el)))"
    by (simp add: after_loop_labelled)
next
  assume "attempt_pass this f input c ctx r d st r t = Continue err t' evs"
  from last_attempt_fails[OF this]
  show "executeSingleStep_from this f input c ctx r d st r lastError t =
      (Rejected t' (Error (labelled (stepName ctx) (message err))), evs)"
    by (simp add: after_loop_labelled)
qed

text \<open>
  Claim C7 as stated fails: a step named \<open>x\<close> whose error message is
  \<open>value 'x' rejected\<close> has a name, its message does not contain the suffix
  \<open>(at step 'x')\<close>, and yet the message is propagated without the suffix.
\<close>

theorem exhausted_failure_counterexample:
  "fst (run (fst flow_named_x) (snd flow_named_x) None (Val 1) 0 0) =
     Rejected 0 (Error msg_quoting_x) \<and>
   \<not> js_includes msg_quoting_x (spec_suffix ''x'') \<and>
   msg_quoting_x \<noteq> msg_quoting_x @ '' '' @ spec_suffix ''x''"
proof -
  have "fst (run (fst flow_named_x) (snd flow_named_x) None (Val 1) 0 0) =
     Rejected 0 (Error msg_quoting_x)"
    by (simp add: run_def steps_of_def run_step_def or_default_def
        executeSingleStep_def executeSingleStep_from.simps attempt_pass_def checkAborted_def
        aborted_def on_catch_def awaited_def nullish_def
        step_throws_def after_loop_def stepLabel_def
        flow_named_x_def Quantam_step_def Quantam_name_def quantam_def msg_quoting_x_def)
  moreover have "\<not> js_includes msg_quoting_x (spec_suffix ''x'')"
    by (simp add: msg_quoting_x_def spec_suffix_def)
  ultimately show ?thesis by simp
qed

theorem exhausted_failure_amended_witness:
  "never_aborted (signal ctx_load) \<and>
   awaited quantam None (step_throws ''boom'' (Val 1) (ctx_load\<lparr>retryCount := 0\<rparr>)) =
      Rejects 0 (Error ''boom'') \<and>
   attempt_pass quantam (step_throws ''boom'') (Val 1) 0 ctx_load 0 100 None 0 0 =
      Continue (Error ''boom'') 0 [Invoked 0 0 0] \<and>
   labelled (stepName ctx_load) ''boom'' =
      ''boom (at step '' @ [CHR 0x27] @ ''load'' @ [CHR 0x27] @ '')'' \<and>
   fst (executeSingleStep quantam (step_throws ''boom'') (Val 1) 0 ctx_load 0 100 None 0)
     = Rejected 0 (Error (labelled (stepName ctx_load) ''boom'')) \<and>
   executeSingleStep_from quantam (step_throws ''boom'') (Val 1) 0 ctx_load 0 100 None 0 None 0
     = (Rejected 0 (Error (labelled (stepName ctx_load) ''boom'')), [Invoked 0 0 0])"
proof -
  have na: "never_aborted (signal ctx_load)" by (simp add: never_aborted_def ctx_load_def)
  have fs: "\<forall>j<0. attempt_fails quantam None (step_throws ''boom'') (Val 1) ctx_load j" by simp
  have l: "awaited quantam None (step_throws ''boom'' (Val 1) (ctx_load\<lparr>retryCount := 0\<rparr>)) =
      Rejects 0 (Error ''boom'')"
    by (simp add: awaited_def nullish_def quantam_def step_throws_def)
  have p: "attempt_pass quantam (step_throws ''boom'') (Val 1) 0 ctx_load 0 100 None 0 0 =
      Continue (Error ''boom'') 0 [Invoked 0 0 0]"
    by (simp add: attempt_pass_def checkAborted_def aborted_def on_catch_def awaited_def
        nullish_def quantam_def step_throws_def ctx_load_def)
  have lb: "labelled (stepName ctx_load) ''boom'' =
      ''boom (at step '' @ [CHR 0x27] @ ''load'' @ [CHR 0x27] @ '')''"
    by (simp add: labelled_def ctx_load_def spec_suffix_def)
  note inst = exhausted_failure_amended[of ctx_load 0 quantam None "step_throws ''boom''" "Val 1" 0
      "Error ''boom''" 0 100 0 "Error ''boom''" 0 "[Invoked 0 0 0]" None]
  from inst[THEN conjunct2] p
  have full: "executeSingleStep_from quantam (step_throws ''boom'') (Val 1) 0 ctx_load 0 100 None 0 None 0
     = (Rejected 0 (Error (labelled (stepName ctx_load) ''boom'')), [Invoked 0 0 0])"
    by simp
  from inst[THEN conjunct1] na fs l
  obtain T where T: "fst (executeSingleStep quantam (step_throws ''boom'') (Val 1) 0 ctx_load 0 100 None 0) =
     Rejected T (Error (labelled (stepName ctx_load) ''boom''))"
    by auto
  with full have "T = 0" by (simp add: executeSingleStep_def)
  with T na l p lb full show ?thesis by simp
qed

section \<open>Claim C8: the context of a parallel group\<close>

text \<open>Every write of an execution of a step goes to the context object it was given.\<close>

lemma pass_event_ctx:
  "attempt_pass this f input c ctx r rd st a t = Decided res evs \<or>
   attempt_pass this f input c ctx r rd st a t = Continue e t' evs \<Longrightarrow>
   \<forall>ev\<in>set evs. event_ctx ev = Some c \<or> event_ctx ev = None"
  by (auto simp: attempt_pass_def checkAborted_def on_catch_def Let_def
      split: behaviour.splits sleep_result.splits if_splits)

lemma loop_event_ctx:
  "\<forall>ev\<in>set (snd (executeSingleStep_from this f input c ctx r rd st a le t)).
     event_ctx ev = Some c \<or> event_ctx ev = None"
proof (induction this f input c ctx r rd st a le t rule: executeSingleStep_from.induct)
  case (1 this f input c ctx r rd st a le t)
  show ?case
  proof (cases "a \<le> r")
    case False
    then show ?thesis by (subst executeSingleStep_from.simps) simp
  next
    case True
    show ?thesis
    proof (cases "attempt_pass this f input c ctx r rd st a t")
      case (Decided res evs)
      then show ?thesis using True pass_event_ctx[of this f input c ctx r rd st a t res evs]
        by (subst executeSingleStep_from.simps) simp
    next
      case (Continue e t' evs)
      from 1[OF True Continue] pass_event_ctx[of this f input c ctx r rd st a t _ evs e t'] Continue True
      show ?thesis
        by (subst executeSingleStep_from.simps) auto
    qed
  qed
qed

text \<open>
  Claim C8, as amended. The members of a parallel group are all given the one context
  object of the run (with its step index and step name): the writes of the group are
  those of its members, and all of them go to that object. Each member writes its own
  attempt number to \<open>context.retryCount\<close> just before each call of its function, so each
  member's function is called with \<open>retryCount\<close> 0, 1, 2, ... in order.
\<close>

theorem group_members_share_context:
  "snd (executeParallelSteps this fs input c ctx r d st t) =
     concat (map (\<lambda>f. snd (executeSingleStep this f input c ctx r d st t)) fs) \<and>
   (\<forall>ev\<in>set (snd (executeParallelSteps this fs input c ctx r d st t)).
      event_ctx ev = Some c \<or> event_ctx ev = None) \<and>
   (\<forall>f\<in>set fs. \<exists>n\<le>r + 1.
      invocations (snd (executeSingleStep this f input c ctx r d st t)) = [0..<n])"
proof (intro conjI ballI)
  show "snd (executeParallelSteps this fs input c ctx r d st t) =
     concat (map (\<lambda>f. snd (executeSingleStep this f input c ctx r d st t)) fs)"
    by (simp add: executeParallelSteps_def comp_def)
next
  fix ev assume "ev \<in> set (snd (executeParallelSteps this fs input c ctx r d st t))"
  then obtain f where "ev \<in> set (snd (executeSingleStep this f input c ctx r d st t))"
    by (auto simp: executeParallelSteps_def)
  then show "event_ctx ev = Some c \<or> event_ctx ev = None"
    using loop_event_ctx[of this f input c ctx r d st 0 None t]
    by (simp add: executeSingleStep_def)
next
  fix f assume "f \<in> set fs"
  from calls_and_sleeps_consecutive[of r 0 this f input c ctx d st None t]
  show "\<exists>n\<le>r + 1. invocations (snd (executeSingleStep this f input c ctx r d st t)) = [0..<n]"
    by (auto simp: executeSingleStep_def)
qed

text \<open>
  Claim C8 as stated fails: in the group \<open>[f, g]\<close> with \<open>retry(2, 10)\<close>, \<open>f\<close> the flaky
  step and \<open>g\<close> taking 20 ms, the group is fulfilled at instant 30 and both members have
  written to the same context object 7; \<open>g\<close> is called once, at instant 0 with
  \<open>retryCount = 0\<close>, and its call lasts until instant 20; at instant 15 that object holds
  \<open>retryCount = 1\<close>, written by the first retry of \<open>f\<close>.
\<close>

theorem group_members_share_context_counterexample:
  "run (fst flow_group) (snd flow_group) None (Val 1) 7 0 =
     (Fulfilled 30 (Arr [Val 3, Val 2]),
      [Invoked 0 7 0, Slept 0 10, Invoked 10 7 1, Slept 10 20, Invoked 30 7 2, Invoked 0 7 0]) \<and>
   snd (executeSingleStep (fst flow_group) step_slow (Val 1) 7 ctx0 2 10 None 0) = [Invoked 0 7 0] \<and>
   step_slow (Val 1) (ctx0\<lparr>retryCount := 0\<rparr>) = Resolves 20 (Val 2) \<and>
   retryCount_at (snd (run (fst flow_group) (snd flow_group) None (Val 1) 7 0)) 7 15 = Some 1"
proof -
  have r: "run (fst flow_group) (snd flow_group) None (Val 1) 7 0 =
     (Fulfilled 30 (Arr [Val 3, Val 2]),
      [Invoked 0 7 0, Slept 0 10, Invoked 10 7 1, Slept 10 20, Invoked 30 7 2, Invoked 0 7 0])"
    by (simp add: run_def steps_of_def run_step_def or_default_def executeParallelSteps_def
        promise_all_def
        executeSingleStep_def executeSingleStep_from.simps attempt_pass_def checkAborted_def
        aborted_def on_catch_def sleep_def backoff_delay_def js_shl_def awaited_def nullish_def
        step_flaky_def step_slow_def
        flow_group_def Quantam_parallel_def Quantam_retry_def quantam_def)
  have s: "snd (executeSingleStep (fst flow_group) step_slow (Val 1) 7 ctx0 2 10 None 0) = [Invoked 0 7 0]"
    by (simp add: executeSingleStep_def executeSingleStep_from.simps attempt_pass_def checkAborted_def
        aborted_def awaited_def nullish_def step_slow_def ctx0_def
        flow_group_def Quantam_parallel_def Quantam_retry_def quantam_def)
  show ?thesis unfolding r using s
    by (simp add: retryCount_at_def step_slow_def)
qed

theorem group_members_share_context_witness:
  "snd (executeParallelSteps quantam [step_flaky, step_slow] (Val 1) 7 ctx0 2 10 None 0) =
     [Invoked 0 7 0, Slept 0 10, Invoked 10 7 1, Slept 10 20, Invoked 30 7 2, Invoked 0 7 0] \<and>
   list_all (\<lambda>ev. event_ctx ev = Some 7 \<or> event_ctx ev = None)
     (snd (executeParallelSteps quantam [step_flaky, step_slow] (Val 1) 7 ctx0 2 10 None 0)) \<and>
   list_all (\<lambda>f. \<exists>n\<le>2 + 1.
       invocations (snd (executeSingleStep quantam f (Val 1) 7 ctx0 2 10 None 0)) = [0..<n])
     [step_flaky, step_slow]"
proof -
  note inst = group_members_share_context[of quantam "[step_flaky, step_slow]"
      "Val 1" 7 ctx0 2 10 None 0]
  have "snd (executeParallelSteps quantam [step_flaky, step_slow] (Val 1) 7 ctx0 2 10 None 0) =
     [Invoked 0 7 0, Slept 0 10, Invoked 10 7 1, Slept 10 20, Invoked 30 7 2, Invoked 0 7 0]"
    by (simp add: executeParallelSteps_def promise_all_def
        executeSingleStep_def executeSingleStep_from.simps attempt_pass_def checkAborted_def
        aborted_def on_catch_def sleep_def backoff_delay_def js_shl_def awaited_def nullish_def
        step_flaky_def step_slow_def ctx0_def quantam_def)
  moreover from inst[THEN conjunct2, THEN conjunct1]
  have "list_all (\<lambda>ev. event_ctx ev = Some 7 \<or> event_ctx ev = None)
     (snd (executeParallelSteps quantam [step_flaky, step_slow] (Val 1) 7 ctx0 2 10 None 0))"
    unfolding list_all_iff .
  moreover from inst[THEN conjunct2, THEN conjunct2]
  have "list_all (\<lambda>f. \<exists>n\<le>2 + 1.
       invocations (snd (executeSingleStep quantam f (Val 1) 7 ctx0 2 10 None 0)) = [0..<n])
     [step_flaky, step_slow]"
    unfolding list_all_iff .
  ultimately show ?thesis by blast
qed

section \<open>Claim C10: an effective timeout of 0\<close>

text \<open>
  Claim C10. When \<open>stepTimeout(0)\<close> is set on the step, or the step has no timeout of its
  own and the flow has \<open>timeout(0)\<close>, the attempt awaits the step function's promise
  itself, with no race, and the whole execution is the one of a step with no timeout at
  all: a step timeout of 0 also switches off a flow timeout that is not 0.
\<close>

theorem zero_timeout_never_races:
  assumes "stepTimeout = Some 0 \<or> (stepTimeout = None \<and> timeoutMs this = Some 0)"
  shows "awaited this stepTimeout (f input ctx) = f input ctx \<and>
         executeSingleStep this f input c ctx r d stepTimeout t =
           executeSingleStep (this\<lparr>timeoutMs := None\<rparr>) f input c ctx r d None t"
proof -
  from assms have z: "nullish stepTimeout (timeoutMs this) = Some 0"
    by (auto simp: nullish_def)
  show ?thesis
    by (simp add: executeSingleStep_def awaited_zero[OF z] no_race_loop[OF z])
qed

theorem zero_timeout_never_races_witness:
  "fst (executeSingleStep (quantam\<lparr>timeoutMs := Some 5\<rparr>) step_slow (Val 1) 0 ctx0 0 100 (Some 0) 0)
     = Fulfilled 20 (Val 2) \<and>
   fst (executeSingleStep (quantam\<lparr>timeoutMs := Some 5\<rparr>) step_slow (Val 1) 0 ctx0 0 100 None 0)
     = Rejected 5 (Error ''Timeout after 5ms'')"
proof -
  have "executeSingleStep (quantam\<lparr>timeoutMs := Some 5\<rparr>) step_slow (Val 1) 0 ctx0 0 100 (Some 0) 0 =
        executeSingleStep (quantam\<lparr>timeoutMs := None\<rparr>) step_slow (Val 1) 0 ctx0 0 100 None 0"
    using zero_timeout_never_races[where stepTimeout = "Some 0"
        and this = "quantam\<lparr>timeoutMs := Some 5\<rparr>" and f = step_slow and input = "Val 1"
        and c = 0 and ctx = ctx0 and r = 0 and d = 100 and t = 0]
    by simp
  moreover have "fst (executeSingleStep (quantam\<lparr>timeoutMs := None\<rparr>) step_slow (Val 1) 0 ctx0 0 100 None 0)
      = Fulfilled 20 (Val 2)"
    by (simp add: executeSingleStep_def executeSingleStep_from.simps attempt_pass_def
        checkAborted_def aborted_def awaited_def nullish_def quantam_def step_slow_def ctx0_def)
  moreover have "fst (executeSingleStep (quantam\<lparr>timeoutMs := Some 5\<rparr>) step_slow (Val 1) 0 ctx0 0 100 None 0)
     = Rejected 5 (Error ''Timeout after 5ms'')"
    by (simp add: executeSingleStep_def executeSingleStep_from.simps attempt_pass_def
        checkAborted_def aborted_def awaited_def nullish_def quantam_def step_slow_def ctx0_def
        promise_race_def createTimeout_def on_catch_def after_loop_def stepLabel_def)
  ultimately show ?thesis by simp
qed


end
